theory Spec2Isabelle
  imports Main "HOL-Library.Word" "HOL-Library.Signed_Division" "HOL-Library.Monad_Syntax"
begin

section \<open>The segment tree with range updates (3.3.3)\<close>

text \<open>
  The class template \<open>segment_tree<T>\<close> is embedded at the instance the file itself
  uses, \<open>T = int\<close>: a value is a 32-bit word read as two's complement, \<open>nullv\<close> is
  \<open>std::numeric_limits<int>::min()\<close> and \<open>merge\<close> is \<open>a > b ? a : b\<close> on the signed
  reading.

  Node numbers and array indices are the source's \<open>int\<close>s, embedded as mathematical
  integers; \<open>/\<close> is C++ division, which truncates (\<open>sdiv\<close>). The largest number the
  code computes from a size \<open>N\<close> is \<open>4 * N\<close>, in the constructor. Where that product
  does not fit an \<open>int\<close> the constructor has no defined result and the embedding
  returns \<open>None\<close>, so every structure that exists has \<open>4 * N \<le> int_max\<close>; on such a
  structure no node number and no index exceeds \<open>4 * N\<close>, and the arithmetic of the
  embedding is the arithmetic of the source.

  The buffers \<open>tree\<close> and \<open>lazy\<close> are raw arrays of \<open>4 * len\<close> elements. Each is a store
  from index to value, and every read and write is checked against the allocation
  \<open>[0, 4 * len)\<close>: an access outside of it has no defined result and is \<open>None\<close>. The
  recursive functions are partial: a call that does not return is \<open>None\<close> as well.
\<close>

type_synonym T = "32 word"

definition int_max :: int where
  "int_max = 2 ^ 31 - 1"

definition nullv :: T where
  "nullv = - (2 ^ 31)"

definition merge :: "T \<Rightarrow> T \<Rightarrow> T" where
  "merge a b = (if b <s a then a else b)"

record segment_tree =
  len :: int
  x :: int
  y :: int
  tree :: "int \<Rightarrow> T"
  lazy :: "int \<Rightarrow> T"
  init :: "T list"
  val :: T

text \<open>Checked access to a buffer of \<open>n\<close> elements, and to the caller's array.\<close>

definition rd :: "int \<Rightarrow> (int \<Rightarrow> T) \<Rightarrow> int \<Rightarrow> T option" where
  "rd n a i = (if 0 \<le> i \<and> i < n then Some (a i) else None)"

definition wr :: "int \<Rightarrow> (int \<Rightarrow> T) \<Rightarrow> int \<Rightarrow> T \<Rightarrow> (int \<Rightarrow> T) option" where
  "wr n a i v = (if 0 \<le> i \<and> i < n then Some (a(i := v)) else None)"

definition rd_init :: "T list \<Rightarrow> int \<Rightarrow> T option" where
  "rd_init a i = (if 0 \<le> i \<and> i < int (length a) then Some (a ! nat i) else None)"

text \<open>
  \<open>build\<close> (lines 71--79). The last line reads \<open>tree[node*2]\<close> and
  \<open>tree[node*2 + 1]\<close>, as the source does.
\<close>

partial_function (option) build :: "segment_tree \<Rightarrow> int \<Rightarrow> int \<Rightarrow> int \<Rightarrow> segment_tree option" where
  "build s node lo hi =
     (if lo = hi then
        do {
          v \<leftarrow> rd_init (init s) lo;
          t \<leftarrow> wr (4 * len s) (tree s) node v;
          Some (s\<lparr>tree := t\<rparr>)
        }
      else
        do {
          s1 \<leftarrow> build s (node * 2 + 1) lo ((lo + hi) sdiv 2);
          s2 \<leftarrow> build s1 (node * 2 + 2) ((lo + hi) sdiv 2 + 1) hi;
          a \<leftarrow> rd (4 * len s2) (tree s2) (node * 2);
          b \<leftarrow> rd (4 * len s2) (tree s2) (node * 2 + 1);
          t \<leftarrow> wr (4 * len s2) (tree s2) node (merge a b);
          Some (s2\<lparr>tree := t\<rparr>)
        })"

text \<open>
  The block that \<open>internal_query\<close> (lines 87--91) and \<open>internal_update\<close>
  (lines 106--110) both run before they descend: \<open>lazy[Lchild] = lazy[Rchild] =
  lazy[node]; lazy[node] = nullv()\<close> when \<open>lazy[node] != nullv()\<close>.
\<close>

definition push_down :: "segment_tree \<Rightarrow> int \<Rightarrow> segment_tree option" where
  "push_down s node =
     do {
       l \<leftarrow> rd (4 * len s) (lazy s) node;
       if l \<noteq> nullv then
         do {
           z1 \<leftarrow> wr (4 * len s) (lazy s) (node * 2 + 2) l;
           z2 \<leftarrow> wr (4 * len s) z1 (node * 2 + 1) l;
           z3 \<leftarrow> wr (4 * len s) z2 node nullv;
           Some (s\<lparr>lazy := z3\<rparr>)
         }
       else Some s
     }"

text \<open>
  \<open>internal_query\<close> (lines 81--94). The two recursive calls are the arguments of
  \<open>merge\<close>, and C++ leaves their order open; the embedding runs the left one first.
\<close>

partial_function (option) internal_query ::
  "segment_tree \<Rightarrow> int \<Rightarrow> int \<Rightarrow> int \<Rightarrow> (T \<times> segment_tree) option" where
  "internal_query s node lo hi =
     (if x s > hi \<or> y s < lo then Some (nullv, s)
      else if x s \<le> lo \<and> hi \<le> y s then
        do {
          l \<leftarrow> rd (4 * len s) (lazy s) node;
          if l = nullv then
            do { t \<leftarrow> rd (4 * len s) (tree s) node; Some (t, s) }
          else
            do { t \<leftarrow> wr (4 * len s) (tree s) node l; Some (l, s\<lparr>tree := t\<rparr>) }
        }
      else
        do {
          s1 \<leftarrow> push_down s node;
          r1 \<leftarrow> internal_query s1 (node * 2 + 1) lo ((lo + hi) sdiv 2);
          r2 \<leftarrow> internal_query (snd r1) (node * 2 + 2) ((lo + hi) sdiv 2 + 1) hi;
          Some (merge (fst r1) (fst r2), snd r2)
        })"

text \<open>\<open>internal_update\<close> (lines 96--114).\<close>

partial_function (option) internal_update ::
  "segment_tree \<Rightarrow> int \<Rightarrow> int \<Rightarrow> int \<Rightarrow> segment_tree option" where
  "internal_update s node lo hi =
     (if x s > hi \<or> y s < lo then Some s
      else if lo = hi then
        do { t \<leftarrow> wr (4 * len s) (tree s) node (val s); Some (s\<lparr>tree := t\<rparr>) }
      else if x s \<le> lo \<and> hi \<le> y s then
        do {
          l \<leftarrow> rd (4 * len s) (lazy s) node;
          z \<leftarrow> wr (4 * len s) (lazy s) node (merge l (val s));
          t \<leftarrow> wr (4 * len s) (tree s) node (merge l (val s));
          Some (s\<lparr>tree := t, lazy := z\<rparr>)
        }
      else
        do {
          s1 \<leftarrow> push_down s node;
          s2 \<leftarrow> internal_update s1 (node * 2 + 1) lo ((lo + hi) sdiv 2);
          s3 \<leftarrow> internal_update s2 (node * 2 + 2) ((lo + hi) sdiv 2 + 1) hi;
          a \<leftarrow> rd (4 * len s3) (tree s3) (node * 2 + 1);
          b \<leftarrow> rd (4 * len s3) (tree s3) (node * 2 + 2);
          t \<leftarrow> wr (4 * len s3) (tree s3) node (merge a b);
          Some (s3\<lparr>tree := t\<rparr>)
        })"

text \<open>
  The constructor (lines 36--45). \<open>new T[4*len]\<close> gives buffers whose contents are
  not determined: \<open>gt\<close> and \<open>gl\<close> are what the memory of \<open>tree\<close> and of \<open>lazy\<close> holds
  before the constructor writes to it. A negative size makes \<open>new\<close> throw. The size
  \<open>4*len\<close> and the bound \<open>len << 2\<close> of the loop are computed in \<open>int\<close>: for
  \<open>4 * N > int_max\<close> they overflow (in practice \<open>new\<close> throws, or allocates a buffer of
  the wrapped, smaller size), and the constructor returns nothing the embedding could
  describe. The loop sets \<open>lazy[i]\<close> for \<open>0 \<le> i < 4 * len\<close>. The fields \<open>x\<close>, \<open>y\<close> and \<open>val\<close> are
  assigned by every public operation before they are read; \<open>array\<close> is \<open>None\<close> for
  the null pointer.
\<close>

definition fill_lazy :: "int \<Rightarrow> (int \<Rightarrow> T) \<Rightarrow> (int \<Rightarrow> T)" where
  "fill_lazy n a = fold (\<lambda>i z. z(i := nullv)) [0..n - 1] a"

definition new_segment_tree ::
  "(int \<Rightarrow> T) \<Rightarrow> (int \<Rightarrow> T) \<Rightarrow> int \<Rightarrow> T list option \<Rightarrow> segment_tree option" where
  "new_segment_tree gt gl N array =
     (if N < 0 \<or> int_max < 4 * N then None
      else
        let s = \<lparr>len = N, x = 0, y = 0, tree = gt, lazy = fill_lazy (4 * N) gl,
                 init = [], val = 0\<rparr>
        in case array of
             None \<Rightarrow> Some s
           | Some a \<Rightarrow> build (s\<lparr>init := a\<rparr>) 0 0 (len s - 1))"

text \<open>The public operations (lines 52--68).\<close>

definition size_of :: "segment_tree \<Rightarrow> int" where
  "size_of s = len s"

definition query :: "segment_tree \<Rightarrow> int \<Rightarrow> int \<Rightarrow> (T \<times> segment_tree) option" where
  "query s lo hi = internal_query (s\<lparr>x := lo, y := hi\<rparr>) 0 0 (len s - 1)"

definition at :: "segment_tree \<Rightarrow> int \<Rightarrow> (T \<times> segment_tree) option" where
  "at s idx = query s idx idx"

definition update_point :: "segment_tree \<Rightarrow> int \<Rightarrow> T \<Rightarrow> segment_tree option" where
  "update_point s idx v = internal_update (s\<lparr>x := idx, y := idx, val := v\<rparr>) 0 0 (len s - 1)"

definition update :: "segment_tree \<Rightarrow> int \<Rightarrow> int \<Rightarrow> T \<Rightarrow> segment_tree option" where
  "update s lo hi v = internal_update (s\<lparr>x := lo, y := hi, val := v\<rparr>) 0 0 (len s - 1)"

text \<open>
  The states a caller can reach: a structure that the constructor returns for a size
  \<open>N > 0\<close> (so \<open>4 * N \<le> int_max\<close>), with or without
  an initial array of \<open>N\<close> values, then any calls of \<open>query\<close> and \<open>update\<close> that return
  (\<open>at\<close> and the point update are the calls with \<open>lo = hi\<close>).
\<close>

inductive reachable :: "segment_tree \<Rightarrow> bool" where
  r_new: "0 < N \<Longrightarrow> new_segment_tree gt gl N None = Some s \<Longrightarrow> reachable s"
| r_build: "0 < N \<Longrightarrow> int (length a) = N \<Longrightarrow> new_segment_tree gt gl N (Some a) = Some s \<Longrightarrow> reachable s"
| r_query: "reachable s \<Longrightarrow> query s lo hi = Some (r, s') \<Longrightarrow> reachable s'"
| r_update: "reachable s \<Longrightarrow> update s lo hi v = Some s' \<Longrightarrow> reachable s'"

text \<open>
  The state after the push-down block, as a total function: what \<open>push_down\<close> returns
  when its three indices are inside the buffers (lemma \<open>push_down_pd\<close>).
\<close>

definition pd :: "segment_tree \<Rightarrow> int \<Rightarrow> segment_tree" where
  "pd s n = (if lazy s n \<noteq> nullv
             then s\<lparr>lazy := (lazy s)(n * 2 + 2 := lazy s n, n * 2 + 1 := lazy s n, n := nullv)\<rparr>
             else s)"

text \<open>
  The invariant of the recursion on a structure of size \<open>N\<close>: node \<open>n\<close> owns the
  non-empty range \<open>[l, h]\<close>, and its number is small enough for its children to lie
  inside \<open>4 * N\<close> elements. It holds at the root \<open>(0, 0, N - 1)\<close> and passes to both
  children of a node with \<open>l < h\<close>.
\<close>

definition node_ok :: "int \<Rightarrow> int \<Rightarrow> int \<Rightarrow> int \<Rightarrow> bool" where
  "node_ok N n l h \<longleftrightarrow> 0 \<le> n \<and> 0 \<le> l \<and> l \<le> h \<and> (n + 2) * (h - l) < 2 * N \<and> n + 2 < 4 * N"

text \<open>
  \<open>desc n m\<close>: node \<open>m\<close> lies in the subtree of node \<open>n\<close> under the numbering
  \<open>2 * n + 1\<close>, \<open>2 * n + 2\<close> of the children. \<open>frame n s s'\<close>: the state \<open>s'\<close> differs from
  \<open>s\<close> inside that subtree only. \<open>eqsub n s t\<close>: the buffers of \<open>s\<close> and \<open>t\<close> agree on
  that subtree.
\<close>

inductive desc :: "int \<Rightarrow> int \<Rightarrow> bool" where
  desc_self: "desc n n"
| desc_left: "desc (n * 2 + 1) m \<Longrightarrow> desc n m"
| desc_right: "desc (n * 2 + 2) m \<Longrightarrow> desc n m"

definition frame :: "int \<Rightarrow> segment_tree \<Rightarrow> segment_tree \<Rightarrow> bool" where
  "frame n s s' \<longleftrightarrow>
     len s' = len s \<and> x s' = x s \<and> y s' = y s \<and> val s' = val s \<and> init s' = init s \<and>
     (\<forall>m. \<not> desc n m \<longrightarrow> tree s' m = tree s m \<and> lazy s' m = lazy s m)"

definition eqsub :: "int \<Rightarrow> segment_tree \<Rightarrow> segment_tree \<Rightarrow> bool" where
  "eqsub n s t \<longleftrightarrow> (\<forall>m. desc n m \<longrightarrow> tree s m = tree t m \<and> lazy s m = lazy t m)"

text \<open>
  The value that a query for \<open>[a, b]\<close> reads off a state at node \<open>n\<close> with range
  \<open>[l, h]\<close>, without the write-back: \<open>internal_query\<close> returns it (lemma
  \<open>q_post_all\<close>).
\<close>

function qv :: "int \<Rightarrow> int \<Rightarrow> segment_tree \<Rightarrow> int \<Rightarrow> int \<Rightarrow> int \<Rightarrow> T" where
  "qv a b s n l h =
     (if a > h \<or> b < l then nullv
      else if a \<le> l \<and> h \<le> b then (if lazy s n = nullv then tree s n else lazy s n)
      else merge (qv a b (pd s n) (n * 2 + 1) l ((l + h) div 2))
                 (qv a b (pd s n) (n * 2 + 2) ((l + h) div 2 + 1) h))"
  by pat_completeness auto

termination
  by (relation "measure (\<lambda>(a, b, s, n, l, h). nat (h - l))") (simp, (simp, presburger)+)

declare qv.simps [simp del]

text \<open>
  What \<open>internal_query\<close> returns and what it leaves behind: the value \<open>qv\<close>, a state
  changed inside the subtree only, and the same value for the same query again.
\<close>

definition q_post :: "segment_tree \<Rightarrow> int \<Rightarrow> int \<Rightarrow> int \<Rightarrow> bool" where
  "q_post s n l h \<longleftrightarrow>
     (\<exists>s'. internal_query s n l h = Some (qv (x s) (y s) s n l h, s') \<and> frame n s s' \<and>
           qv (x s) (y s) s' n l h = qv (x s) (y s) s n l h)"

text \<open>
  The state after \<open>internal_update\<close>, as a total function (lemma
  \<open>internal_update_upd\<close>).
\<close>

function upd :: "segment_tree \<Rightarrow> int \<Rightarrow> int \<Rightarrow> int \<Rightarrow> segment_tree" where
  "upd s n l h =
     (if h < x s \<or> y s < l then s
      else if l = h then s\<lparr>tree := (tree s)(n := val s)\<rparr>
      else if x s \<le> l \<and> h \<le> y s then
        s\<lparr>tree := (tree s)(n := merge (lazy s n) (val s)),
          lazy := (lazy s)(n := merge (lazy s n) (val s))\<rparr>
      else
        let s3 = upd (upd (pd s n) (n * 2 + 1) l ((l + h) div 2)) (n * 2 + 2) ((l + h) div 2 + 1) h
        in s3\<lparr>tree := (tree s3)(n := merge (tree s3 (n * 2 + 1)) (tree s3 (n * 2 + 2)))\<rparr>)"
  by pat_completeness auto

termination
  by (relation "measure (\<lambda>(s, n, l, h). nat (h - l))") (simp, (simp, presburger)+)

declare upd.simps [simp del]

text \<open>
  \<open>leaf_pending s n l h i\<close>: \<open>internal_update\<close>, run on node \<open>n\<close> with range \<open>[l, h]\<close> in
  state \<open>s\<close>, reaches index \<open>i\<close> in its leaf branch (lines 98--100), and at that moment
  \<open>lazy\<close> of that leaf holds a pending value. The states are those of the run: the
  push-down before the descent, and the update of the left child before the right
  one is entered.
\<close>

function leaf_pending :: "segment_tree \<Rightarrow> int \<Rightarrow> int \<Rightarrow> int \<Rightarrow> int \<Rightarrow> bool" where
  "leaf_pending s n l h i =
     (if h < x s \<or> y s < l then False
      else if l = h then lazy s n \<noteq> nullv
      else if x s \<le> l \<and> h \<le> y s then False
      else if i \<le> (l + h) div 2 then leaf_pending (pd s n) (n * 2 + 1) l ((l + h) div 2) i
      else leaf_pending (upd (pd s n) (n * 2 + 1) l ((l + h) div 2))
             (n * 2 + 2) ((l + h) div 2 + 1) h i)"
  by pat_completeness auto

termination
  by (relation "measure (\<lambda>(s, n, l, h, i). nat (h - l))") (simp, (simp, presburger)+)

declare leaf_pending.simps [simp del]

text \<open>
  \<open>lazy_clear n s\<close>: no update is pending anywhere in the subtree of \<open>n\<close>. \<open>b_post\<close>: what
  \<open>build\<close> returns on a node: a state changed in the \<open>tree\<close> buffer of the subtree only,
  in which a point query for \<open>i\<close> reads the initial value \<open>init[i]\<close>.
\<close>

definition lazy_clear :: "int \<Rightarrow> segment_tree \<Rightarrow> bool" where
  "lazy_clear n s \<longleftrightarrow> (\<forall>m. desc n m \<longrightarrow> m < 4 * len s \<longrightarrow> lazy s m = nullv)"

definition b_post :: "segment_tree \<Rightarrow> int \<Rightarrow> int \<Rightarrow> int \<Rightarrow> bool" where
  "b_post s n l h \<longleftrightarrow>
     (\<exists>s'. build s n l h = Some s' \<and> frame n s s' \<and> lazy s' = lazy s \<and>
           (lazy_clear n s \<longrightarrow> (\<forall>i. l \<le> i \<and> i \<le> h \<longrightarrow> qv i i s' n l h = init s ! nat i)))"

declare build.simps [code] internal_query.simps [code] internal_update.simps [code]

section \<open>Basic facts\<close>

lemma sint_nullv: "sint nullv = - (2 ^ 31)"
  by (simp add: nullv_def)

lemma merge_nullv_right: "merge a nullv = a"
proof (cases "nullv <s a")
  case True
  then show ?thesis by (simp add: merge_def)
next
  case False
  with sint_ge [of a] have "sint a = sint nullv"
    by (simp add: word_sless_alt sint_nullv)
  then have "a = nullv" by (rule signed_word_eqI)
  then show ?thesis by (simp add: merge_def)
qed

lemma merge_nullv_left: "merge nullv a = a"
  using sint_ge [of a] by (auto simp add: merge_def word_sless_alt sint_nullv)

lemma merge_cases: "merge a b = a \<or> merge a b = b"
  by (simp add: merge_def)

lemma sdiv_two: "0 \<le> a \<Longrightarrow> (a::int) sdiv 2 = a div 2"
  by (simp add: signed_divide_int_def sgn_if)

lemma push_down_pd: "0 \<le> n \<Longrightarrow> n * 2 + 2 < 4 * len s \<Longrightarrow> push_down s n = Some (pd s n)"
  by (simp add: push_down_def pd_def rd_def wr_def)

subsection \<open>The recursion stays inside the buffers\<close>

lemma node_ok_root: "0 < N \<Longrightarrow> node_ok N 0 0 (N - 1)"
  by (simp add: node_ok_def)

lemma node_ok_bound: "node_ok N n l h \<Longrightarrow> 0 \<le> n \<and> n < 4 * N"
  by (simp add: node_ok_def)

lemma node_ok_inner:
  assumes "node_ok N n l h" "l < h"
  shows "n * 2 + 4 < 4 * N"
proof -
  from assms have a: "0 \<le> n" "(n + 2) * (h - l) < 2 * N" by (simp_all add: node_ok_def)
  from assms have "(n + 2) * 1 \<le> (n + 2) * (h - l)"
    using a(1) by (intro mult_left_mono) simp_all
  then have "n + 2 \<le> (n + 2) * (h - l)" by (simp only: mult_1_right)
  with a show ?thesis by linarith
qed

lemma node_ok_left:
  assumes "node_ok N n l h" "l < h"
  shows "node_ok N (n * 2 + 1) l ((l + h) sdiv 2)"
proof -
  from assms have a: "0 \<le> n" "0 \<le> l" "(n + 2) * (h - l) < 2 * N" by (simp_all add: node_ok_def)
  have m: "(l + h) sdiv 2 = (l + h) div 2" using a assms by (simp add: sdiv_two)
  let ?m = "(l + h) div 2"
  have r: "l \<le> ?m" "2 * (?m - l) \<le> h - l" using assms(2) by presburger+
  have "(n * 2 + 1 + 2) * (?m - l) \<le> (n * 2 + 4) * (?m - l)"
    using r(1) by (intro mult_right_mono) simp_all
  also have "\<dots> = (n + 2) * (2 * (?m - l))" by (simp add: algebra_simps)
  also have "\<dots> \<le> (n + 2) * (h - l)" using a(1) r(2) by (intro mult_left_mono) simp_all
  finally have "(n * 2 + 1 + 2) * (?m - l) < 2 * N" using a(3) by simp
  moreover have "n * 2 + 1 + 2 < 4 * N" using node_ok_inner [OF assms] by simp
  ultimately show ?thesis using a r by (simp add: node_ok_def m)
qed

lemma node_ok_right:
  assumes "node_ok N n l h" "l < h"
  shows "node_ok N (n * 2 + 2) ((l + h) sdiv 2 + 1) h"
proof -
  from assms have a: "0 \<le> n" "0 \<le> l" "(n + 2) * (h - l) < 2 * N" by (simp_all add: node_ok_def)
  have m: "(l + h) sdiv 2 = (l + h) div 2" using a assms by (simp add: sdiv_two)
  let ?m = "(l + h) div 2"
  have r: "?m + 1 \<le> h" "0 \<le> ?m + 1" "2 * (h - (?m + 1)) \<le> h - l" using assms(2) a(2) by presburger+
  have "(n * 2 + 2 + 2) * (h - (?m + 1)) = (n + 2) * (2 * (h - (?m + 1)))" by (simp add: algebra_simps)
  also have "\<dots> \<le> (n + 2) * (h - l)" using a(1) r(3) by (intro mult_left_mono) simp_all
  finally have "(n * 2 + 2 + 2) * (h - (?m + 1)) < 2 * N" using a(3) by simp
  moreover have "n * 2 + 2 + 2 < 4 * N"
  proof -
    show ?thesis using node_ok_inner [OF assms] by simp
  qed
  ultimately show ?thesis using a r by (simp add: node_ok_def m)
qed

lemma node_ok_measure:
  assumes "node_ok N n l h" "l < h"
  shows "nat ((l + h) sdiv 2 - l) < nat (h - l)" "nat (h - ((l + h) sdiv 2 + 1)) < nat (h - l)"
proof -
  from assms have a: "0 \<le> l" by (simp add: node_ok_def)
  have m: "(l + h) sdiv 2 = (l + h) div 2" using a assms by (simp add: sdiv_two)
  show "nat ((l + h) sdiv 2 - l) < nat (h - l)" unfolding m using assms(2) by linarith
  show "nat (h - ((l + h) sdiv 2 + 1)) < nat (h - l)" unfolding m using assms(2) by linarith
qed

lemma node_induct [consumes 1, case_names leaf inner]:
  assumes ok: "node_ok N n l h"
    and leaf: "\<And>n l. node_ok N n l l \<Longrightarrow> P n l l"
    and inner: "\<And>n l h. node_ok N n l h \<Longrightarrow> l < h \<Longrightarrow>
                  P (n * 2 + 1) l ((l + h) sdiv 2) \<Longrightarrow>
                  P (n * 2 + 2) ((l + h) sdiv 2 + 1) h \<Longrightarrow> P n l h"
  shows "P n l h"
  using ok
proof (induction "nat (h - l)" arbitrary: n l h rule: less_induct)
  case less
  show ?case
  proof (cases "l < h")
    case False
    with less.prems have "l = h" by (simp add: node_ok_def)
    with less.prems leaf show ?thesis by simp
  next
    case True
    show ?thesis
      by (rule inner [OF less.prems True])
        (rule less.hyps [OF node_ok_measure(1) [OF less.prems True] node_ok_left [OF less.prems True]],
         rule less.hyps [OF node_ok_measure(2) [OF less.prems True] node_ok_right [OF less.prems True]])
  qed
qed

subsection \<open>Subtrees under the numbering of the nodes\<close>

lemma div_pow_Suc:
  fixes a :: int
  shows "a div 2 ^ Suc k = (a div 2 ^ k) div 2"
proof -
  have "a div 2 ^ Suc k = a div (2 ^ k * 2)" by (simp add: mult.commute)
  also have "\<dots> = (a div 2 ^ k) div 2" by (rule zdiv_zmult2_eq) simp
  finally show ?thesis .
qed

lemma desc_div: "desc n m \<Longrightarrow> \<exists>k::nat. (m + 1) div 2 ^ k = n + 1"
proof (induction rule: desc.induct)
  case (desc_self n)
  have "(n + 1) div 2 ^ (0::nat) = n + 1" by simp
  then show ?case by blast
next
  case (desc_left n m)
  then obtain k :: nat where k: "(m + 1) div 2 ^ k = n * 2 + 1 + 1" by blast
  have "(m + 1) div 2 ^ Suc k = ((m + 1) div 2 ^ k) div 2" by (rule div_pow_Suc)
  also have "\<dots> = (n * 2 + 1 + 1) div 2" by (simp only: k)
  also have "\<dots> = n + 1" by simp
  finally show ?case by blast
next
  case (desc_right n m)
  then obtain k :: nat where k: "(m + 1) div 2 ^ k = n * 2 + 2 + 1" by blast
  have "(m + 1) div 2 ^ Suc k = ((m + 1) div 2 ^ k) div 2" by (rule div_pow_Suc)
  also have "\<dots> = (n * 2 + 2 + 1) div 2" by (simp only: k)
  also have "\<dots> = n + 1" by simp
  finally show ?case by blast
qed

lemma desc_ge: "desc n m \<Longrightarrow> 0 \<le> n \<Longrightarrow> n \<le> m"
  by (induction rule: desc.induct) simp_all

lemma not_desc_parent: "0 \<le> n \<Longrightarrow> \<not> desc (n * 2 + 1) n" "0 \<le> n \<Longrightarrow> \<not> desc (n * 2 + 2) n"
  using desc_ge [of "n * 2 + 1" n] desc_ge [of "n * 2 + 2" n] by auto

lemma div_pow_add:
  fixes a :: int
  shows "a div 2 ^ (j + d) = (a div 2 ^ j) div 2 ^ d"
proof -
  have "a div 2 ^ (j + d) = a div (2 ^ j * 2 ^ d)" by (simp only: power_add)
  also have "\<dots> = (a div 2 ^ j) div 2 ^ d" by (rule zdiv_zmult2_eq) simp
  finally show ?thesis .
qed

lemma div_pow_le:
  fixes a :: int
  assumes "0 \<le> a" shows "a div 2 ^ Suc j \<le> a div 2"
proof -
  have "a div 2 ^ Suc j = a div 2 ^ (1 + j)" by simp
  also have "\<dots> = (a div 2 ^ 1) div 2 ^ j" by (rule div_pow_add)
  also have "\<dots> = (a div 2) div 2 ^ j" by simp
  also have "\<dots> \<le> (a div 2) div 1"
  proof (rule zdiv_mono2)
    show "0 \<le> a div 2" using assms by simp
    show "(0::int) < 1" by simp
    show "(1::int) \<le> 2 ^ j" by simp
  qed
  finally show ?thesis by simp
qed

lemma desc_disj:
  assumes n: "0 \<le> n" and l: "desc (n * 2 + 1) m" and r: "desc (n * 2 + 2) m"
  shows False
proof -
  from desc_div [OF l] obtain j :: nat where "(m + 1) div 2 ^ j = n * 2 + 1 + 1" by blast
  then have j: "(m + 1) div 2 ^ j = n * 2 + 2" by simp
  from desc_div [OF r] obtain k :: nat where "(m + 1) div 2 ^ k = n * 2 + 2 + 1" by blast
  then have k: "(m + 1) div 2 ^ k = n * 2 + 3" by simp
  consider "j = k" | "j < k" | "k < j" by linarith
  then show False
  proof cases
    case 1
    with j k show False by simp
  next
    case 2
    define d where "d = k - j - 1"
    have d: "k = j + Suc d" using 2 by (simp add: d_def)
    have "(m + 1) div 2 ^ (j + Suc d) = ((m + 1) div 2 ^ j) div 2 ^ Suc d" by (rule div_pow_add)
    also have "\<dots> = (n * 2 + 2) div 2 ^ Suc d" by (simp only: j)
    also have "\<dots> \<le> (n * 2 + 2) div 2" using n by (intro div_pow_le) simp
    finally have "(m + 1) div 2 ^ k \<le> n + 1" by (simp add: d)
    with k n show False by simp
  next
    case 3
    define d where "d = j - k - 1"
    have d: "j = k + Suc d" using 3 by (simp add: d_def)
    have "(m + 1) div 2 ^ (k + Suc d) = ((m + 1) div 2 ^ k) div 2 ^ Suc d" by (rule div_pow_add)
    also have "\<dots> = (n * 2 + 3) div 2 ^ Suc d" by (simp only: k)
    also have "\<dots> \<le> (n * 2 + 3) div 2" using n by (intro div_pow_le) simp
    finally have "(m + 1) div 2 ^ j \<le> n + 1" by (simp add: d)
    with j n show False by simp
  qed
qed

lemma frame_refl: "frame n s s"
  by (simp add: frame_def)

lemma frame_trans: "frame n s t \<Longrightarrow> frame n t u \<Longrightarrow> frame n s u"
  by (simp add: frame_def)

lemma frame_left: "frame (n * 2 + 1) s t \<Longrightarrow> frame n s t"
  by (auto simp add: frame_def intro: desc_left)

lemma frame_right: "frame (n * 2 + 2) s t \<Longrightarrow> frame n s t"
  by (auto simp add: frame_def intro: desc_right)

lemma frame_pd: "frame n s (pd s n)"
  by (auto simp add: frame_def pd_def intro: desc.intros)

lemma frame_tree_upd: "frame n s (s\<lparr>tree := (tree s)(n := v)\<rparr>)"
  by (auto simp add: frame_def intro: desc.intros)

lemma frame_fields:
  "frame n s t \<Longrightarrow> len t = len s \<and> x t = x s \<and> y t = y s \<and> val t = val s \<and> init t = init s"
  by (simp add: frame_def)

lemma frame_self: "frame c s t \<Longrightarrow> \<not> desc c n \<Longrightarrow> lazy t n = lazy s n \<and> tree t n = tree s n"
  by (simp add: frame_def)

lemma frame_eqsub_right: "0 \<le> n \<Longrightarrow> frame (n * 2 + 1) s t \<Longrightarrow> eqsub (n * 2 + 2) t s"
  using desc_disj [of n] by (auto simp add: frame_def eqsub_def)

lemma frame_eqsub_left: "0 \<le> n \<Longrightarrow> frame (n * 2 + 2) s t \<Longrightarrow> eqsub (n * 2 + 1) t s"
  using desc_disj [of n] by (auto simp add: frame_def eqsub_def)

lemma eqsub_tree_upd_left: "0 \<le> n \<Longrightarrow> eqsub (n * 2 + 1) (s\<lparr>tree := (tree s)(n := v)\<rparr>) s"
  using not_desc_parent(1) [of n] by (auto simp add: eqsub_def)

lemma eqsub_tree_upd_right: "0 \<le> n \<Longrightarrow> eqsub (n * 2 + 2) (s\<lparr>tree := (tree s)(n := v)\<rparr>) s"
  using not_desc_parent(2) [of n] by (auto simp add: eqsub_def)

lemma eqsub_pd: "eqsub n s t \<Longrightarrow> eqsub n (pd s n) (pd t n)"
  by (auto simp add: eqsub_def pd_def intro: desc.intros)

lemma eqsub_left: "eqsub n s t \<Longrightarrow> eqsub (n * 2 + 1) s t"
  by (auto simp add: eqsub_def intro: desc_left)

lemma eqsub_right: "eqsub n s t \<Longrightarrow> eqsub (n * 2 + 2) s t"
  by (auto simp add: eqsub_def intro: desc_right)

lemma eqsub_self: "eqsub n s t \<Longrightarrow> lazy s n = lazy t n \<and> tree s n = tree t n"
  by (auto simp add: eqsub_def intro: desc_self)

subsection \<open>The value of a query\<close>

lemma qv_out: "h < a \<or> b < l \<Longrightarrow> qv a b s n l h = nullv"
  by (subst qv.simps) (simp only: if_P)

lemma qv_full:
  "\<not> (h < a \<or> b < l) \<Longrightarrow> a \<le> l \<and> h \<le> b \<Longrightarrow>
   qv a b s n l h = (if lazy s n = nullv then tree s n else lazy s n)"
  by (subst qv.simps) (simp only: if_P if_not_P if_False if_True)

lemma qv_part:
  "\<not> (h < a \<or> b < l) \<Longrightarrow> \<not> (a \<le> l \<and> h \<le> b) \<Longrightarrow>
   qv a b s n l h = merge (qv a b (pd s n) (n * 2 + 1) l ((l + h) div 2))
                          (qv a b (pd s n) (n * 2 + 2) ((l + h) div 2 + 1) h)"
  by (subst qv.simps) (simp only: if_P if_not_P if_False if_True)

lemma qv_cong: "eqsub n s t \<Longrightarrow> qv a b s n l h = qv a b t n l h"
proof (induction a b s n l h arbitrary: t rule: qv.induct)
  case (1 a b s n l h)
  note e = eqsub_self [OF "1.prems"]
  show ?case
  proof (cases "h < a \<or> b < l")
    case True
    then show ?thesis by (simp only: qv_out)
  next
    case out: False
    show ?thesis
    proof (cases "a \<le> l \<and> h \<le> b")
      case True
      show ?thesis by (simp only: qv_full [OF out True] e)
    next
      case False
      have "qv a b (pd s n) (n * 2 + 1) l ((l + h) div 2) = qv a b (pd t n) (n * 2 + 1) l ((l + h) div 2)"
        by (rule "1.IH"(1) [OF out False eqsub_left [OF eqsub_pd [OF "1.prems"]]])
      moreover
      have "qv a b (pd s n) (n * 2 + 2) ((l + h) div 2 + 1) h = qv a b (pd t n) (n * 2 + 2) ((l + h) div 2 + 1) h"
        by (rule "1.IH"(2) [OF out False eqsub_right [OF eqsub_pd [OF "1.prems"]]])
      ultimately show ?thesis by (simp only: qv_part [OF out False])
    qed
  qed
qed

subsection \<open>What internal_query returns\<close>

lemma pd_fields:
  "len (pd s n) = len s" "x (pd s n) = x s" "y (pd s n) = y s" "val (pd s n) = val s"
  "init (pd s n) = init s" "tree (pd s n) = tree s"
  by (simp_all add: pd_def)

lemma pd_lazy_self: "lazy (pd s n) n = nullv"
  by (simp add: pd_def)

lemma pd_idem: "lazy s n = nullv \<Longrightarrow> pd s n = s"
  by (simp add: pd_def)

lemma iq_out: "hi < x s \<or> y s < lo \<Longrightarrow> internal_query s n lo hi = Some (nullv, s)"
  by (subst internal_query.simps) (simp only: if_P)

lemma iq_full:
  assumes "\<not> (hi < x s \<or> y s < lo)" "x s \<le> lo \<and> hi \<le> y s" "0 \<le> n" "n < 4 * len s"
  shows "internal_query s n lo hi =
           Some (if lazy s n = nullv then (tree s n, s)
                 else (lazy s n, s\<lparr>tree := (tree s)(n := lazy s n)\<rparr>))"
proof -
  have "internal_query s n lo hi =
          do {
            l \<leftarrow> rd (4 * len s) (lazy s) n;
            if l = nullv then do { t \<leftarrow> rd (4 * len s) (tree s) n; Some (t, s) }
            else do { t \<leftarrow> wr (4 * len s) (tree s) n l; Some (l, s\<lparr>tree := t\<rparr>) }
          }"
    using assms(1,2) by (subst internal_query.simps) (simp only: if_P if_not_P if_False if_True)
  also have "\<dots> = Some (if lazy s n = nullv then (tree s n, s)
                            else (lazy s n, s\<lparr>tree := (tree s)(n := lazy s n)\<rparr>))"
    using assms(3,4) by (simp add: rd_def wr_def)
  finally show ?thesis .
qed

lemma iq_part:
  assumes "\<not> (hi < x s \<or> y s < lo)" "\<not> (x s \<le> lo \<and> hi \<le> y s)" "0 \<le> n" "n * 2 + 2 < 4 * len s"
  shows "internal_query s n lo hi =
           do {
             r1 \<leftarrow> internal_query (pd s n) (n * 2 + 1) lo ((lo + hi) sdiv 2);
             r2 \<leftarrow> internal_query (snd r1) (n * 2 + 2) ((lo + hi) sdiv 2 + 1) hi;
             Some (merge (fst r1) (fst r2), snd r2)
           }"
proof -
  have "internal_query s n lo hi =
          do {
            s1 \<leftarrow> push_down s n;
            r1 \<leftarrow> internal_query s1 (n * 2 + 1) lo ((lo + hi) sdiv 2);
            r2 \<leftarrow> internal_query (snd r1) (n * 2 + 2) ((lo + hi) sdiv 2 + 1) hi;
            Some (merge (fst r1) (fst r2), snd r2)
          }"
    using assms(1,2) by (subst internal_query.simps) (simp only: if_P if_not_P if_False if_True)
  then show ?thesis
    by (simp add: push_down_pd [OF assms(3,4)])
qed

lemma part_inner: "\<not> (hi < a \<or> b < lo) \<Longrightarrow> \<not> (a \<le> lo \<and> hi \<le> b) \<Longrightarrow> lo < (hi::int)"
  by linarith

lemma q_post_outfull:
  assumes ok: "node_ok (len s) n l h" and c: "hi < x s \<or> y s < lo \<or> (x s \<le> lo \<and> hi \<le> y s)"
    and lh: "lo = l" "hi = h"
  shows "q_post s n l h"
proof (cases "h < x s \<or> y s < l")
  case True
  then show ?thesis
    by (simp add: q_post_def iq_out qv_out frame_refl)
next
  case out: False
  with c lh have full: "x s \<le> l \<and> h \<le> y s" by blast
  note b = node_ok_bound [OF ok]
  show ?thesis
  proof (cases "lazy s n = nullv")
    case True
    then show ?thesis
      using b by (simp add: q_post_def iq_full [OF out full] qv_full [OF out full] frame_refl)
  next
    case False
    then show ?thesis
      using b by (simp add: q_post_def iq_full [OF out full] qv_full [OF out full] frame_tree_upd)
  qed
qed

lemma q_post_all: "node_ok N n l h \<Longrightarrow> \<forall>s. len s = N \<longrightarrow> q_post s n l h"
proof (induction rule: node_induct)
  case (leaf n l)
  show ?case
  proof (intro allI impI)
    fix s :: segment_tree assume "len s = N"
    with leaf have ok: "node_ok (len s) n l l" by simp
    have "l < x s \<or> y s < l \<or> (x s \<le> l \<and> l \<le> y s)" by linarith
    then show "q_post s n l l" by (rule q_post_outfull [OF ok]) simp_all
  qed
next
  case (inner n l h)
  show ?case
  proof (intro allI impI)
    fix s :: segment_tree assume N: "len s = N"
    with inner have ok: "node_ok (len s) n l h" by simp
    let ?m = "(l + h) sdiv 2"
    have md: "?m = (l + h) div 2" using ok inner(2) by (simp add: node_ok_def sdiv_two)
    show "q_post s n l h"
    proof (cases "h < x s \<or> y s < l \<or> (x s \<le> l \<and> h \<le> y s)")
      case True
      then show ?thesis by (rule q_post_outfull [OF ok]) simp_all
    next
      case False
      then have out: "\<not> (h < x s \<or> y s < l)" and nf: "\<not> (x s \<le> l \<and> h \<le> y s)" by blast+
      from ok have n0: "0 \<le> n" by (simp add: node_ok_def)
      have nb: "n * 2 + 2 < 4 * len s" using node_ok_inner [OF ok inner(2)] by simp
      let ?s1 = "pd s n"
      have f1: "x ?s1 = x s" "y ?s1 = y s" "len ?s1 = N" by (simp_all add: pd_fields N)
      from inner(3) f1 have "q_post ?s1 (n * 2 + 1) l ?m" by blast
      then obtain s2 where s2: "internal_query ?s1 (n * 2 + 1) l ?m = Some (qv (x s) (y s) ?s1 (n * 2 + 1) l ?m, s2)"
        and fr2: "frame (n * 2 + 1) ?s1 s2"
        and id2: "qv (x s) (y s) s2 (n * 2 + 1) l ?m = qv (x s) (y s) ?s1 (n * 2 + 1) l ?m"
        unfolding q_post_def f1 by blast
      have f2: "x s2 = x s" "y s2 = y s" "len s2 = N" using frame_fields [OF fr2] f1 by simp_all
      from inner(4) f2 have "q_post s2 (n * 2 + 2) (?m + 1) h" by blast
      then obtain s3 where s3: "internal_query s2 (n * 2 + 2) (?m + 1) h = Some (qv (x s) (y s) s2 (n * 2 + 2) (?m + 1) h, s3)"
        and fr3: "frame (n * 2 + 2) s2 s3"
        and id3: "qv (x s) (y s) s3 (n * 2 + 2) (?m + 1) h = qv (x s) (y s) s2 (n * 2 + 2) (?m + 1) h"
        unfolding q_post_def f2 by blast
      have r2: "qv (x s) (y s) s2 (n * 2 + 2) (?m + 1) h = qv (x s) (y s) ?s1 (n * 2 + 2) (?m + 1) h"
        by (rule qv_cong [OF frame_eqsub_right [OF n0 fr2]])
      have l3: "qv (x s) (y s) s3 (n * 2 + 1) l ?m = qv (x s) (y s) s2 (n * 2 + 1) l ?m"
        by (rule qv_cong [OF frame_eqsub_left [OF n0 fr3]])
      have qs: "qv (x s) (y s) s n l h =
                  merge (qv (x s) (y s) ?s1 (n * 2 + 1) l ?m) (qv (x s) (y s) ?s1 (n * 2 + 2) (?m + 1) h)"
        unfolding md by (rule qv_part [OF out nf])
      have run: "internal_query s n l h = Some (qv (x s) (y s) s n l h, s3)"
        by (simp add: iq_part [OF out nf n0 nb] s2 s3 qs r2)
      have fr: "frame n s s3"
        by (rule frame_trans [OF frame_pd frame_trans [OF frame_left [OF fr2] frame_right [OF fr3]]])
      have lz: "lazy s3 n = nullv"
        using frame_self [OF fr3 not_desc_parent(2) [OF n0]] frame_self [OF fr2 not_desc_parent(1) [OF n0]]
        by (simp add: pd_lazy_self)
      have "qv (x s) (y s) s3 n l h =
              merge (qv (x s) (y s) (pd s3 n) (n * 2 + 1) l ?m) (qv (x s) (y s) (pd s3 n) (n * 2 + 2) (?m + 1) h)"
        unfolding md by (rule qv_part [OF out nf])
      also have "\<dots> = qv (x s) (y s) s n l h"
        by (simp add: pd_idem [OF lz] l3 id2 id3 r2 qs)
      finally have idem: "qv (x s) (y s) s3 n l h = qv (x s) (y s) s n l h" .
      show ?thesis unfolding q_post_def using run fr idem by blast
    qed
  qed
qed

subsection \<open>What internal_update returns\<close>

lemma upd_out: "h < x s \<or> y s < l \<Longrightarrow> upd s n l h = s"
  by (subst upd.simps) (simp only: if_P)

lemma upd_leaf: "\<not> (h < x s \<or> y s < l) \<Longrightarrow> l = h \<Longrightarrow> upd s n l h = s\<lparr>tree := (tree s)(n := val s)\<rparr>"
  by (subst upd.simps) (simp only: if_P if_not_P if_False if_True)

lemma upd_full:
  "\<not> (h < x s \<or> y s < l) \<Longrightarrow> l \<noteq> h \<Longrightarrow> x s \<le> l \<and> h \<le> y s \<Longrightarrow>
   upd s n l h = s\<lparr>tree := (tree s)(n := merge (lazy s n) (val s)),
                    lazy := (lazy s)(n := merge (lazy s n) (val s))\<rparr>"
  by (subst upd.simps) (simp only: if_P if_not_P if_False if_True)

lemma upd_part:
  "\<not> (h < x s \<or> y s < l) \<Longrightarrow> l \<noteq> h \<Longrightarrow> \<not> (x s \<le> l \<and> h \<le> y s) \<Longrightarrow>
   upd s n l h =
     (let s3 = upd (upd (pd s n) (n * 2 + 1) l ((l + h) div 2)) (n * 2 + 2) ((l + h) div 2 + 1) h
      in s3\<lparr>tree := (tree s3)(n := merge (tree s3 (n * 2 + 1)) (tree s3 (n * 2 + 2)))\<rparr>)"
  by (subst upd.simps) (simp only: if_P if_not_P if_False if_True)

lemma frame_both_upd:
  "frame n s (s\<lparr>tree := (tree s)(n := v), lazy := (lazy s)(n := w)\<rparr>)"
  by (auto simp add: frame_def intro: desc.intros)

lemma frame_then_tree: "frame n s t \<Longrightarrow> frame n s (t\<lparr>tree := (tree t)(n := v)\<rparr>)"
  by (auto simp add: frame_def intro: desc.intros)

lemma upd_frame: "frame n s (upd s n l h)"
proof (induction s n l h rule: upd.induct)
  case (1 s n l h)
  show ?case
  proof (cases "h < x s \<or> y s < l")
    case True
    then show ?thesis by (simp add: upd_out frame_refl)
  next
    case out: False
    show ?thesis
    proof (cases "l = h")
      case True
      show ?thesis unfolding upd_leaf [OF out True] by (rule frame_tree_upd)
    next
      case ne: False
      show ?thesis
      proof (cases "x s \<le> l \<and> h \<le> y s")
        case True
        then show ?thesis by (simp add: upd_full [OF out ne] frame_both_upd)
      next
        case False
        let ?s2 = "upd (pd s n) (n * 2 + 1) l ((l + h) div 2)"
        let ?s3 = "upd ?s2 (n * 2 + 2) ((l + h) div 2 + 1) h"
        have a: "frame (n * 2 + 1) (pd s n) ?s2" by (rule "1.IH"(1) [OF out ne False])
        have b: "frame (n * 2 + 2) ?s2 ?s3" by (rule "1.IH"(2) [OF out ne False])
        have "frame n s ?s3"
          by (rule frame_trans [OF frame_pd frame_trans [OF frame_left [OF a] frame_right [OF b]]])
        then show ?thesis
          by (simp add: upd_part [OF out ne False] Let_def frame_then_tree)
      qed
    qed
  qed
qed

lemma iu_out: "hi < x s \<or> y s < lo \<Longrightarrow> internal_update s n lo hi = Some s"
  by (subst internal_update.simps) (simp only: if_P)

lemma iu_leaf:
  assumes "\<not> (hi < x s \<or> y s < lo)" "lo = hi" "0 \<le> n" "n < 4 * len s"
  shows "internal_update s n lo hi = Some (s\<lparr>tree := (tree s)(n := val s)\<rparr>)"
proof -
  have "internal_update s n lo hi =
          do { t \<leftarrow> wr (4 * len s) (tree s) n (val s); Some (s\<lparr>tree := t\<rparr>) }"
    using assms(1,2) by (subst internal_update.simps) (simp only: if_P if_not_P if_False if_True)
  then show ?thesis using assms(3,4) by (simp add: wr_def)
qed

lemma iu_full:
  assumes "\<not> (hi < x s \<or> y s < lo)" "lo \<noteq> hi" "x s \<le> lo \<and> hi \<le> y s" "0 \<le> n" "n < 4 * len s"
  shows "internal_update s n lo hi =
           Some (s\<lparr>tree := (tree s)(n := merge (lazy s n) (val s)),
                   lazy := (lazy s)(n := merge (lazy s n) (val s))\<rparr>)"
proof -
  have "internal_update s n lo hi =
          do {
            l \<leftarrow> rd (4 * len s) (lazy s) n;
            z \<leftarrow> wr (4 * len s) (lazy s) n (merge l (val s));
            t \<leftarrow> wr (4 * len s) (tree s) n (merge l (val s));
            Some (s\<lparr>tree := t, lazy := z\<rparr>)
          }"
    using assms(1,2,3) by (subst internal_update.simps) (simp only: if_P if_not_P if_False if_True)
  then show ?thesis using assms(4,5) by (simp add: rd_def wr_def)
qed

lemma iu_part:
  assumes "\<not> (hi < x s \<or> y s < lo)" "lo \<noteq> hi" "\<not> (x s \<le> lo \<and> hi \<le> y s)"
    "0 \<le> n" "n * 2 + 2 < 4 * len s"
  shows "internal_update s n lo hi =
           do {
             s2 \<leftarrow> internal_update (pd s n) (n * 2 + 1) lo ((lo + hi) sdiv 2);
             s3 \<leftarrow> internal_update s2 (n * 2 + 2) ((lo + hi) sdiv 2 + 1) hi;
             a \<leftarrow> rd (4 * len s3) (tree s3) (n * 2 + 1);
             b \<leftarrow> rd (4 * len s3) (tree s3) (n * 2 + 2);
             t \<leftarrow> wr (4 * len s3) (tree s3) n (merge a b);
             Some (s3\<lparr>tree := t\<rparr>)
           }"
proof -
  have "internal_update s n lo hi =
          do {
            s1 \<leftarrow> push_down s n;
            s2 \<leftarrow> internal_update s1 (n * 2 + 1) lo ((lo + hi) sdiv 2);
            s3 \<leftarrow> internal_update s2 (n * 2 + 2) ((lo + hi) sdiv 2 + 1) hi;
            a \<leftarrow> rd (4 * len s3) (tree s3) (n * 2 + 1);
            b \<leftarrow> rd (4 * len s3) (tree s3) (n * 2 + 2);
            t \<leftarrow> wr (4 * len s3) (tree s3) n (merge a b);
            Some (s3\<lparr>tree := t\<rparr>)
          }"
    using assms(1,2,3) by (subst internal_update.simps) (simp only: if_P if_not_P if_False if_True)
  then show ?thesis
    by (simp add: push_down_pd [OF assms(4,5)])
qed

lemma internal_update_upd:
  "node_ok N n l h \<Longrightarrow> \<forall>s. len s = N \<longrightarrow> internal_update s n l h = Some (upd s n l h)"
proof (induction rule: node_induct)
  case (leaf n l)
  show ?case
  proof (intro allI impI)
    fix s :: segment_tree assume N: "len s = N"
    from leaf N have b: "0 \<le> n" "n < 4 * len s" by (simp_all add: node_ok_def)
    show "internal_update s n l l = Some (upd s n l l)"
    proof (cases "l < x s \<or> y s < l")
      case True
      then show ?thesis by (simp add: iu_out upd_out)
    next
      case False
      then show ?thesis by (simp add: iu_leaf [OF False refl b] upd_leaf [OF False refl])
    qed
  qed
next
  case (inner n l h)
  show ?case
  proof (intro allI impI)
    fix s :: segment_tree assume N: "len s = N"
    from inner N have b: "0 \<le> n" "n < 4 * len s" "0 \<le> l" by (simp_all add: node_ok_def)
    have nb: "n * 2 + 2 < 4 * len s" using node_ok_inner [OF inner(1,2)] N by simp
    from inner(2) have ne: "l \<noteq> h" by simp
    let ?m = "(l + h) sdiv 2"
    have md: "?m = (l + h) div 2" using b inner(2) by (simp add: sdiv_two)
    show "internal_update s n l h = Some (upd s n l h)"
    proof (cases "h < x s \<or> y s < l")
      case True
      then show ?thesis by (simp add: iu_out upd_out)
    next
      case out: False
      show ?thesis
      proof (cases "x s \<le> l \<and> h \<le> y s")
        case True
        then show ?thesis by (simp add: iu_full [OF out ne True b(1,2)] upd_full [OF out ne True])
      next
        case False
        let ?s2 = "upd (pd s n) (n * 2 + 1) l ?m"
        let ?s3 = "upd ?s2 (n * 2 + 2) (?m + 1) h"
        have l1: "len (pd s n) = N" by (simp add: pd_fields N)
        have l2: "len ?s2 = N" using frame_fields [OF upd_frame [of "n * 2 + 1" "pd s n" l ?m]] l1 by simp
        have l3: "len ?s3 = N" using frame_fields [OF upd_frame [of "n * 2 + 2" ?s2 "?m + 1" h]] l2 by simp
        have u1: "internal_update (pd s n) (n * 2 + 1) l ?m = Some ?s2" using inner(3) l1 by blast
        have u2: "internal_update ?s2 (n * 2 + 2) (?m + 1) h = Some ?s3" using inner(4) l2 by blast
        have "internal_update s n l h =
                Some (?s3\<lparr>tree := (tree ?s3)(n := merge (tree ?s3 (n * 2 + 1)) (tree ?s3 (n * 2 + 2)))\<rparr>)"
          using b nb N by (simp add: iu_part [OF out ne False b(1) nb] u1 u2 l3 rd_def wr_def)
        then show ?thesis
          by (simp add: upd_part [OF out ne False] Let_def md)
      qed
    qed
  qed
qed

subsection \<open>What build returns\<close>

lemma eqsub_trans: "eqsub n s t \<Longrightarrow> eqsub n t u \<Longrightarrow> eqsub n s u"
  by (simp add: eqsub_def)

lemma eqsub_fields: "tree t = tree s \<Longrightarrow> lazy t = lazy s \<Longrightarrow> eqsub n t s"
  by (simp add: eqsub_def)

lemma b_leaf:
  assumes "lo = hi" "0 \<le> lo" "lo < int (length (init s))" "0 \<le> n" "n < 4 * len s"
  shows "build s n lo hi = Some (s\<lparr>tree := (tree s)(n := init s ! nat lo)\<rparr>)"
proof -
  have "build s n lo hi =
          do {
            v \<leftarrow> rd_init (init s) lo;
            t \<leftarrow> wr (4 * len s) (tree s) n v;
            Some (s\<lparr>tree := t\<rparr>)
          }"
    using assms(1) by (subst build.simps) (simp only: if_P if_not_P if_False if_True)
  then show ?thesis using assms(2-5) by (simp add: rd_init_def wr_def)
qed

lemma b_inner:
  assumes "lo \<noteq> hi"
  shows "build s n lo hi =
           do {
             s1 \<leftarrow> build s (n * 2 + 1) lo ((lo + hi) sdiv 2);
             s2 \<leftarrow> build s1 (n * 2 + 2) ((lo + hi) sdiv 2 + 1) hi;
             a \<leftarrow> rd (4 * len s2) (tree s2) (n * 2);
             b \<leftarrow> rd (4 * len s2) (tree s2) (n * 2 + 1);
             t \<leftarrow> wr (4 * len s2) (tree s2) n (merge a b);
             Some (s2\<lparr>tree := t\<rparr>)
           }"
  using assms by (subst build.simps) (simp only: if_P if_not_P if_False if_True)

lemma lazy_clear_left: "lazy_clear n s \<Longrightarrow> lazy_clear (n * 2 + 1) s"
  by (auto simp add: lazy_clear_def intro: desc_left)

lemma lazy_clear_right: "lazy_clear n s \<Longrightarrow> lazy_clear (n * 2 + 2) s"
  by (auto simp add: lazy_clear_def intro: desc_right)

lemma lazy_clear_self: "lazy_clear n s \<Longrightarrow> n < 4 * len s \<Longrightarrow> lazy s n = nullv"
  by (auto simp add: lazy_clear_def intro: desc_self)

lemma b_post_all:
  "node_ok N n l h \<Longrightarrow> \<forall>s. len s = N \<and> h < int (length (init s)) \<longrightarrow> b_post s n l h"
proof (induction rule: node_induct)
  case (leaf n l)
  show ?case
  proof (intro allI impI)
    fix s :: segment_tree assume a: "len s = N \<and> l < int (length (init s))"
    from leaf a have b: "0 \<le> l" "0 \<le> n" "n < 4 * len s" by (simp_all add: node_ok_def)
    from a have li: "l < int (length (init s))" by simp
    let ?s' = "s\<lparr>tree := (tree s)(n := init s ! nat l)\<rparr>"
    have run: "build s n l l = Some ?s'" by (rule b_leaf [OF refl b(1) li b(2,3)])
    have v: "lazy_clear n s \<longrightarrow> (\<forall>i. l \<le> i \<and> i \<le> l \<longrightarrow> qv i i ?s' n l l = init s ! nat i)"
    proof (intro impI allI)
      fix i assume c: "lazy_clear n s" and i: "l \<le> i \<and> i \<le> l"
      then have il: "i = l" by simp
      have "qv l l ?s' n l l = (if lazy ?s' n = nullv then tree ?s' n else lazy ?s' n)"
        by (rule qv_full) simp_all
      then show "qv i i ?s' n l l = init s ! nat i"
        using lazy_clear_self [OF c b(3)] by (simp add: il)
    qed
    show "b_post s n l l"
      unfolding b_post_def using run v by (simp add: frame_tree_upd)
  qed
next
  case (inner n l h)
  show ?case
  proof (intro allI impI)
    fix s :: segment_tree assume a: "len s = N \<and> h < int (length (init s))"
    then have N: "len s = N" and hi: "h < int (length (init s))" by simp_all
    from inner N have b: "0 \<le> n" "n < 4 * len s" "0 \<le> l" by (simp_all add: node_ok_def)
    have nb: "n * 2 + 2 < 4 * len s" using node_ok_inner [OF inner(1,2)] N by simp
    from inner(2) have ne: "l \<noteq> h" by simp
    let ?m = "(l + h) sdiv 2"
    have md: "?m = (l + h) div 2" using b inner(2) by (simp add: sdiv_two)
    have mr: "l \<le> ?m" "?m < h" unfolding md using inner(2) by presburger+
    from inner(3) N hi mr have "b_post s (n * 2 + 1) l ?m" by simp
    then obtain s1 where s1: "build s (n * 2 + 1) l ?m = Some s1"
      and fr1: "frame (n * 2 + 1) s s1" and lz1: "lazy s1 = lazy s"
      and v1: "lazy_clear (n * 2 + 1) s \<longrightarrow> (\<forall>i. l \<le> i \<and> i \<le> ?m \<longrightarrow> qv i i s1 (n * 2 + 1) l ?m = init s ! nat i)"
      unfolding b_post_def by blast
    have f1: "len s1 = N" "init s1 = init s" using frame_fields [OF fr1] N by simp_all
    from inner(4) f1 hi have "b_post s1 (n * 2 + 2) (?m + 1) h" by simp
    then obtain s2 where s2: "build s1 (n * 2 + 2) (?m + 1) h = Some s2"
      and fr2: "frame (n * 2 + 2) s1 s2" and lz2: "lazy s2 = lazy s1"
      and v2: "lazy_clear (n * 2 + 2) s1 \<longrightarrow> (\<forall>i. ?m + 1 \<le> i \<and> i \<le> h \<longrightarrow> qv i i s2 (n * 2 + 2) (?m + 1) h = init s1 ! nat i)"
      unfolding b_post_def by blast
    have f2: "len s2 = N" using frame_fields [OF fr2] f1 by simp
    let ?s' = "s2\<lparr>tree := (tree s2)(n := merge (tree s2 (n * 2)) (tree s2 (n * 2 + 1)))\<rparr>"
    have run: "build s n l h = Some ?s'"
      using b nb N by (simp add: b_inner [OF ne] s1 s2 f2 rd_def wr_def)
    have fr: "frame n s ?s'"
      by (rule frame_then_tree [OF frame_trans [OF frame_left [OF fr1] frame_right [OF fr2]]])
    have lz: "lazy ?s' = lazy s" by (simp add: lz1 lz2)
    have v: "lazy_clear n s \<longrightarrow> (\<forall>i. l \<le> i \<and> i \<le> h \<longrightarrow> qv i i ?s' n l h = init s ! nat i)"
    proof (intro impI allI)
      fix i assume c: "lazy_clear n s" and i: "l \<le> i \<and> i \<le> h"
      have out: "\<not> (h < i \<or> i < l)" using i by simp
      have nf: "\<not> (i \<le> l \<and> h \<le> i)" using inner(2) by simp
      have pn: "pd ?s' n = ?s'"
        by (rule pd_idem) (simp add: lz lazy_clear_self [OF c b(2)])
      have q: "qv i i ?s' n l h = merge (qv i i ?s' (n * 2 + 1) l ?m) (qv i i ?s' (n * 2 + 2) (?m + 1) h)"
        using qv_part [OF out nf, of ?s' n] unfolding pn md .
      have eL: "eqsub (n * 2 + 1) ?s' s1"
        by (rule eqsub_trans [OF eqsub_tree_upd_left [OF b(1)] frame_eqsub_left [OF b(1) fr2]])
      have eR: "eqsub (n * 2 + 2) ?s' s2"
        by (rule eqsub_tree_upd_right [OF b(1)])
      show "qv i i ?s' n l h = init s ! nat i"
      proof (cases "i \<le> ?m")
        case True
        have "qv i i ?s' (n * 2 + 2) (?m + 1) h = nullv" by (rule qv_out) (use True in simp)
        moreover have "qv i i ?s' (n * 2 + 1) l ?m = init s ! nat i"
          using v1 lazy_clear_left [OF c] i True by (simp add: qv_cong [OF eL])
        ultimately show ?thesis by (simp add: q merge_nullv_right)
      next
        case False
        have "qv i i ?s' (n * 2 + 1) l ?m = nullv" by (rule qv_out) (use False in simp)
        moreover have "lazy_clear (n * 2 + 2) s1"
          using lazy_clear_right [OF c] by (simp add: lazy_clear_def lz1 f1 N)
        then have "qv i i ?s' (n * 2 + 2) (?m + 1) h = init s ! nat i"
          using v2 i False by (simp add: qv_cong [OF eR] f1)
        ultimately show ?thesis by (simp add: q merge_nullv_left)
      qed
    qed
    show "b_post s n l h"
      unfolding b_post_def using run fr lz v by blast
  qed
qed

subsection \<open>The public operations\<close>

lemma fold_upd_const:
  "fold (\<lambda>i z. z(i := c)) xs a m = (if m \<in> set xs then c else a m)"
  by (induction xs arbitrary: a) auto

lemma fill_lazy_in: "0 \<le> m \<Longrightarrow> m < n \<Longrightarrow> fill_lazy n a m = nullv"
  by (simp add: fill_lazy_def fold_upd_const)

lemma qv_xy: "qv a b (s\<lparr>x := c, y := d\<rparr>) n l h = qv a b s n l h"
  by (rule qv_cong) (simp add: eqsub_def)

lemma query_qv:
  assumes "0 < len s"
  shows "\<exists>s'. query s a b = Some (qv a b s 0 0 (len s - 1), s') \<and> frame 0 (s\<lparr>x := a, y := b\<rparr>) s' \<and>
              qv a b s' 0 0 (len s - 1) = qv a b s 0 0 (len s - 1)"
proof -
  let ?s = "s\<lparr>x := a, y := b\<rparr>"
  have "q_post ?s 0 0 (len s - 1)"
    using q_post_all [OF node_ok_root [OF assms]] by simp
  then show ?thesis
    by (simp add: q_post_def query_def qv_xy)
qed

lemma update_upd:
  assumes "0 < len s"
  shows "update s lo hi v = Some (upd (s\<lparr>x := lo, y := hi, val := v\<rparr>) 0 0 (len s - 1))"
  using internal_update_upd [OF node_ok_root [OF assms]] by (simp add: update_def)

lemma new_overflow: "int_max < 4 * N \<Longrightarrow> new_segment_tree gt gl N array = None"
  by (simp add: new_segment_tree_def)

lemma new_build:
  assumes "0 < N" "4 * N \<le> int_max" "int (length a) = N"
  shows "\<exists>s. new_segment_tree gt gl N (Some a) = Some s \<and> len s = N \<and>
             (\<forall>i. 0 \<le> i \<and> i < N \<longrightarrow> qv i i s 0 0 (N - 1) = a ! nat i)"
proof -
  let ?s0 = "\<lparr>len = N, x = 0, y = 0, tree = gt, lazy = fill_lazy (4 * N) gl, init = a, val = 0\<rparr>"
  have c: "lazy_clear 0 ?s0"
    using desc_ge [of 0] by (auto simp add: lazy_clear_def fill_lazy_in)
  have "b_post ?s0 0 0 (N - 1)"
    using b_post_all [OF node_ok_root [OF assms(1)]] assms(3) by simp
  then obtain s where s: "build ?s0 0 0 (N - 1) = Some s" and fr: "frame 0 ?s0 s"
    and v: "\<forall>i. 0 \<le> i \<and> i \<le> N - 1 \<longrightarrow> qv i i s 0 0 (N - 1) = a ! nat i"
    unfolding b_post_def using c by auto
  have "new_segment_tree gt gl N (Some a) = Some s"
    using assms(1,2) s by (simp add: new_segment_tree_def Let_def)
  moreover have "len s = N" using frame_fields [OF fr] by simp
  ultimately show ?thesis using v by auto
qed

lemma new_plain:
  assumes "0 < N" "4 * N \<le> int_max"
  shows "\<exists>s. new_segment_tree gt gl N None = Some s \<and> len s = N"
  using assms by (simp add: new_segment_tree_def Let_def)

lemma new_bounded: "new_segment_tree gt gl N array = Some s \<Longrightarrow> 4 * N \<le> int_max"
  by (cases "int_max < 4 * N") (simp_all add: new_overflow)

lemma reachable_len: "reachable s \<Longrightarrow> 0 < len s"
proof (induction rule: reachable.induct)
  case (r_new N gt gl s)
  with new_plain [OF r_new(1) new_bounded [OF r_new(2)], of gt gl] show ?case by auto
next
  case (r_build N a gt gl s)
  with new_build [OF r_build(1) new_bounded [OF r_build(3)] r_build(2), of gt gl] show ?case by auto
next
  case (r_query s lo hi r s')
  from query_qv [OF r_query.IH, of lo hi] r_query(2) have "frame 0 (s\<lparr>x := lo, y := hi\<rparr>) s'" by auto
  from frame_fields [OF this] r_query.IH show ?case by simp
next
  case (r_update s lo hi v s')
  from update_upd [OF r_update.IH, of lo hi v] r_update(2)
  have "s' = upd (s\<lparr>x := lo, y := hi, val := v\<rparr>) 0 0 (len s - 1)" by simp
  with frame_fields [OF upd_frame [of 0 "s\<lparr>x := lo, y := hi, val := v\<rparr>" 0 "len s - 1"]] r_update.IH
  show ?case by simp
qed

lemma update_point_update: "update_point s idx v = update s idx idx v"
  by (simp add: update_point_def update_def)

lemma qv_inverted: "b < a \<Longrightarrow> qv a b s n l h = nullv"
proof (induction a b s n l h rule: qv.induct)
  case (1 a b s n l h)
  show ?case
  proof (cases "h < a \<or> b < l")
    case True
    then show ?thesis by (rule qv_out)
  next
    case out: False
    with "1.prems" have nf: "\<not> (a \<le> l \<and> h \<le> b)" by linarith
    show ?thesis
      by (simp add: qv_part [OF out nf] "1.IH"(1) [OF out nf "1.prems"] "1.IH"(2) [OF out nf "1.prems"]
          merge_nullv_left)
  qed
qed

subsection \<open>Queries after an update\<close>

lemma upd_fields:
  "len (upd s n l h) = len s" "x (upd s n l h) = x s" "y (upd s n l h) = y s"
  "val (upd s n l h) = val s"
  using frame_fields [OF upd_frame [of n s l h]] by simp_all

lemma upd_part_lazy:
  assumes n: "0 \<le> n"
  shows "lazy (upd (upd (pd s n) (n * 2 + 1) l m) (n * 2 + 2) l' h) n = nullv"
  using frame_self [OF upd_frame [of "n * 2 + 2" "upd (pd s n) (n * 2 + 1) l m" l' h] not_desc_parent(2) [OF n]]
    frame_self [OF upd_frame [of "n * 2 + 1" "pd s n" l m] not_desc_parent(1) [OF n]]
  by (simp add: pd_lazy_self)

text \<open>
  The children of a node that an update has passed through in its last branch: what
  a query reads on them afterwards.
\<close>

lemma upd_part_children:
  fixes s :: segment_tree and n l m l' h :: int and v :: T
  assumes n: "0 \<le> n"
  defines "s2 \<equiv> upd (pd s n) (n * 2 + 1) l m"
  defines "s3 \<equiv> upd s2 (n * 2 + 2) l' h"
  defines "s' \<equiv> s3\<lparr>tree := (tree s3)(n := v)\<rparr>"
  shows "pd s' n = s' \<and>
         qv a b s' (n * 2 + 1) l1 h1 = qv a b s2 (n * 2 + 1) l1 h1 \<and>
         qv a b s' (n * 2 + 2) l2 h2 = qv a b s3 (n * 2 + 2) l2 h2 \<and>
         qv a b s2 (n * 2 + 2) l2 h2 = qv a b (pd s n) (n * 2 + 2) l2 h2"
proof (intro conjI)
  have fr2: "frame (n * 2 + 1) (pd s n) s2" unfolding s2_def by (rule upd_frame)
  have fr3: "frame (n * 2 + 2) s2 s3" unfolding s3_def by (rule upd_frame)
  have "lazy s' n = nullv" unfolding s'_def s3_def s2_def by (simp add: upd_part_lazy [OF n])
  then show "pd s' n = s'" by (rule pd_idem)
  have "eqsub (n * 2 + 1) s' s2"
    unfolding s'_def
    by (rule eqsub_trans [OF eqsub_tree_upd_left [OF n] frame_eqsub_left [OF n fr3]])
  then show "qv a b s' (n * 2 + 1) l1 h1 = qv a b s2 (n * 2 + 1) l1 h1" by (rule qv_cong)
  show "qv a b s' (n * 2 + 2) l2 h2 = qv a b s3 (n * 2 + 2) l2 h2"
    unfolding s'_def by (rule qv_cong [OF eqsub_tree_upd_right [OF n]])
  show "qv a b s2 (n * 2 + 2) l2 h2 = qv a b (pd s n) (n * 2 + 2) l2 h2"
    by (rule qv_cong [OF frame_eqsub_right [OF n fr2]])
qed

lemma upd_local:
  "0 \<le> n \<Longrightarrow> y s < a \<or> b < x s \<Longrightarrow> qv a b (upd s n l h) n l h = qv a b s n l h"
proof (induction s n l h rule: upd.induct)
  case (1 s n l h)
  note n = "1.prems"(1) and dj = "1.prems"(2)
  show ?case
  proof (cases "h < x s \<or> y s < l")
    case True
    then show ?thesis by (simp add: upd_out)
  next
    case out: False
    show ?thesis
    proof (cases "h < a \<or> b < l")
      case True
      then show ?thesis by (simp add: qv_out)
    next
      case qout: False
      have nfull: "\<not> (x s \<le> l \<and> h \<le> y s)" using out qout dj by linarith
      have ne: "l \<noteq> h" using out qout dj by linarith
      have qnf: "\<not> (a \<le> l \<and> h \<le> b)" using out qout dj by linarith
      let ?m = "(l + h) div 2"
      let ?s1 = "pd s n"
      let ?s2 = "upd ?s1 (n * 2 + 1) l ?m"
      let ?s3 = "upd ?s2 (n * 2 + 2) (?m + 1) h"
      let ?s' = "?s3\<lparr>tree := (tree ?s3)(n := merge (tree ?s3 (n * 2 + 1)) (tree ?s3 (n * 2 + 2)))\<rparr>"
      have u: "upd s n l h = ?s'" by (simp add: upd_part [OF out ne nfull] Let_def)
      note ch = upd_part_children [OF n, where s = s and l = l and m = ?m and l' = "?m + 1" and h = h]
      have i1: "qv a b ?s2 (n * 2 + 1) l ?m = qv a b ?s1 (n * 2 + 1) l ?m"
        by (rule "1.IH"(1) [OF out ne nfull]) (use n dj in \<open>simp_all add: pd_fields\<close>)
      have i2: "qv a b ?s3 (n * 2 + 2) (?m + 1) h = qv a b ?s2 (n * 2 + 2) (?m + 1) h"
        by (rule "1.IH"(2) [OF out ne nfull]) (use n dj in \<open>simp_all add: pd_fields upd_fields\<close>)
      have "qv a b ?s' n l h =
              merge (qv a b (pd ?s' n) (n * 2 + 1) l ?m) (qv a b (pd ?s' n) (n * 2 + 2) (?m + 1) h)"
        by (rule qv_part [OF qout qnf])
      also have "\<dots> = merge (qv a b ?s1 (n * 2 + 1) l ?m) (qv a b ?s1 (n * 2 + 2) (?m + 1) h)"
        by (simp only: ch i1 i2)
      also have "\<dots> = qv a b s n l h"
        by (rule qv_part [OF qout qnf, symmetric])
      finally show ?thesis by (simp only: u)
    qed
  qed
qed

lemma qv_vals: "qv a b (s\<lparr>x := c, y := d, val := v\<rparr>) n l h = qv a b s n l h"
  by (rule qv_cong) (simp add: eqsub_def)

lemma merge_eq_nullv: "merge a b = nullv \<Longrightarrow> a = nullv \<and> b = nullv"
proof -
  assume m: "merge a b = nullv"
  have "\<not> b <s nullv" using sint_ge [of b] by (simp add: word_sless_alt sint_nullv)
  with m have "\<not> b <s a" by (auto simp add: merge_def)
  with m have "b = nullv" by (simp add: merge_def)
  with m merge_nullv_right [of a] show ?thesis by simp
qed

lemma pd_lazy_children:
  "0 \<le> n \<Longrightarrow> lazy s n \<noteq> nullv \<Longrightarrow>
   lazy (pd s n) (n * 2 + 1) = lazy s n \<and> lazy (pd s n) (n * 2 + 2) = lazy s n"
  by (simp add: pd_def)

lemma qv_lazy:
  "0 \<le> n \<Longrightarrow> lazy s n = z \<Longrightarrow> z \<noteq> nullv \<Longrightarrow> l \<le> a \<Longrightarrow> a \<le> h \<Longrightarrow> b = a \<Longrightarrow>
   qv a b s n l h = z"
proof (induction a b s n l h rule: qv.induct)
  case (1 a b s n l h)
  have out: "\<not> (h < a \<or> b < l)" using "1.prems" by simp
  show ?case
  proof (cases "a \<le> l \<and> h \<le> b")
    case True
    have "qv a b s n l h = (if lazy s n = nullv then tree s n else lazy s n)"
      by (rule qv_full [OF out True])
    with "1.prems"(2,3) show ?thesis by simp
  next
    case False
    let ?m = "(l + h) div 2"
    have lh: "l < h" using False "1.prems" by linarith
    have mr: "l \<le> ?m" "?m < h" using lh by presburger+
    note c = pd_lazy_children [OF "1.prems"(1), of s]
    have q: "qv a b s n l h = merge (qv a b (pd s n) (n * 2 + 1) l ?m) (qv a b (pd s n) (n * 2 + 2) (?m + 1) h)"
      by (rule qv_part [OF out False])
    show ?thesis
    proof (cases "a \<le> ?m")
      case True
      have "qv a b (pd s n) (n * 2 + 1) l ?m = z"
        by (rule "1.IH"(1) [OF out False]) (use "1.prems" c True in simp_all)
      moreover have "qv a b (pd s n) (n * 2 + 2) (?m + 1) h = nullv"
        by (rule qv_out) (use True "1.prems" in simp)
      ultimately show ?thesis by (simp add: q merge_nullv_right)
    next
      case right: False
      have "qv a b (pd s n) (n * 2 + 2) (?m + 1) h = z"
        by (rule "1.IH"(2) [OF out False]) (use "1.prems" c right in simp_all)
      moreover have "qv a b (pd s n) (n * 2 + 1) l ?m = nullv"
        by (rule qv_out) (use right in simp)
      ultimately show ?thesis by (simp add: q merge_nullv_left)
    qed
  qed
qed

lemma merge_commute: "merge a b = merge b a"
proof (cases "b <s a")
  case True
  then have "\<not> a <s b" by (simp add: word_sless_alt)
  with True show ?thesis by (simp add: merge_def)
next
  case False
  show ?thesis
  proof (cases "a <s b")
    case True
    with False show ?thesis by (simp add: merge_def)
  next
    case nab: False
    with False have "sint a = sint b" by (simp add: word_sless_alt)
    then have "a = b" by (rule signed_word_eqI)
    then show ?thesis by simp
  qed
qed

lemma lp_leaf:
  "\<not> (h < x s \<or> y s < l) \<Longrightarrow> l = h \<Longrightarrow> leaf_pending s n l h i = (lazy s n \<noteq> nullv)"
  by (subst leaf_pending.simps) (simp only: if_P if_not_P if_False if_True)

lemma lp_left:
  "\<not> (h < x s \<or> y s < l) \<Longrightarrow> l \<noteq> h \<Longrightarrow> \<not> (x s \<le> l \<and> h \<le> y s) \<Longrightarrow> i \<le> (l + h) div 2 \<Longrightarrow>
   leaf_pending s n l h i = leaf_pending (pd s n) (n * 2 + 1) l ((l + h) div 2) i"
  by (subst leaf_pending.simps) (simp only: if_P if_not_P if_False if_True)

lemma lp_right:
  "\<not> (h < x s \<or> y s < l) \<Longrightarrow> l \<noteq> h \<Longrightarrow> \<not> (x s \<le> l \<and> h \<le> y s) \<Longrightarrow> \<not> i \<le> (l + h) div 2 \<Longrightarrow>
   leaf_pending s n l h i =
     leaf_pending (upd (pd s n) (n * 2 + 1) l ((l + h) div 2)) (n * 2 + 2) ((l + h) div 2 + 1) h i"
  by (subst leaf_pending.simps) (simp only: if_P if_not_P if_False if_True)

lemma upd_value:
  "0 \<le> n \<Longrightarrow> x s \<le> i \<Longrightarrow> i \<le> y s \<Longrightarrow> l \<le> i \<Longrightarrow> i \<le> h \<Longrightarrow> \<not> leaf_pending s n l h i \<Longrightarrow>
   qv i i (upd s n l h) n l h = val s \<or>
   qv i i (upd s n l h) n l h = merge (val s) (qv i i s n l h)"
proof (induction s n l h rule: upd.induct)
  case (1 s n l h)
  note n = "1.prems"(1) and np = "1.prems"(6)
  have out: "\<not> (h < x s \<or> y s < l)" using "1.prems" by linarith
  have qo: "\<not> (h < i \<or> i < l)" using "1.prems" by linarith
  show ?case
  proof (cases "l = h")
    case True
    have qf: "i \<le> l \<and> h \<le> i" using True "1.prems" by linarith
    from np have lz: "lazy s n = nullv" by (simp add: lp_leaf [OF out True])
    have "qv i i (upd s n l h) n l h = val s"
      by (simp add: upd_leaf [OF out True] qv_full [OF qo qf] lz)
    then show ?thesis by simp
  next
    case ne: False
    have qnf: "\<not> (i \<le> l \<and> h \<le> i)" using ne "1.prems" by linarith
    let ?m = "(l + h) div 2"
    show ?thesis
    proof (cases "x s \<le> l \<and> h \<le> y s")
      case True
      let ?v = "merge (lazy s n) (val s)"
      let ?s' = "s\<lparr>tree := (tree s)(n := ?v), lazy := (lazy s)(n := ?v)\<rparr>"
      have u: "upd s n l h = ?s'" by (rule upd_full [OF out ne True])
      show ?thesis
      proof (cases "?v = nullv")
        case False
        have new: "qv i i ?s' n l h = ?v"
          by (rule qv_lazy [OF n _ False]) (use "1.prems" in simp_all)
        show ?thesis
        proof (cases "lazy s n = nullv")
          case True
          then have "?v = val s" by (simp add: merge_nullv_left)
          with new u show ?thesis by simp
        next
          case pending: False
          have "qv i i s n l h = lazy s n"
            by (rule qv_lazy [OF n refl pending]) (use "1.prems" in simp_all)
          then have "?v = merge (val s) (qv i i s n l h)" by (simp add: merge_commute)
          with new u show ?thesis by simp
        qed
      next
        case z: True
        from merge_eq_nullv [OF z] have lz: "lazy s n = nullv" and vz: "val s = nullv" by simp_all
        have "(lazy s)(n := nullv) = lazy s" using lz by (simp add: fun_upd_idem)
        then have s': "?s' = s\<lparr>tree := (tree s)(n := nullv)\<rparr>" by (simp add: z)
        have p1: "pd (s\<lparr>tree := (tree s)(n := nullv)\<rparr>) n = s\<lparr>tree := (tree s)(n := nullv)\<rparr>"
          by (rule pd_idem) (simp add: lz)
        have "qv i i (s\<lparr>tree := (tree s)(n := nullv)\<rparr>) n l h = qv i i s n l h"
          by (simp only: qv_part [OF qo qnf] p1 pd_idem [OF lz]
              qv_cong [OF eqsub_tree_upd_left [OF n]] qv_cong [OF eqsub_tree_upd_right [OF n]])
        then have "qv i i (upd s n l h) n l h = qv i i s n l h"
          by (simp only: u s')
        also have "\<dots> = merge (val s) (qv i i s n l h)"
          by (simp only: vz merge_nullv_left)
        finally show ?thesis by simp
      qed
    next
      case nfull: False
      let ?s1 = "pd s n"
      let ?s2 = "upd ?s1 (n * 2 + 1) l ?m"
      let ?s3 = "upd ?s2 (n * 2 + 2) (?m + 1) h"
      let ?s' = "?s3\<lparr>tree := (tree ?s3)(n := merge (tree ?s3 (n * 2 + 1)) (tree ?s3 (n * 2 + 2)))\<rparr>"
      have u: "upd s n l h = ?s'" by (simp add: upd_part [OF out ne nfull] Let_def)
      note ch = upd_part_children [OF n, where s = s and l = l and m = ?m and l' = "?m + 1" and h = h]
      have new: "qv i i ?s' n l h =
              merge (qv i i ?s2 (n * 2 + 1) l ?m) (qv i i ?s3 (n * 2 + 2) (?m + 1) h)"
        by (simp only: qv_part [OF qo qnf] ch)
      have old: "qv i i s n l h =
              merge (qv i i ?s1 (n * 2 + 1) l ?m) (qv i i ?s1 (n * 2 + 2) (?m + 1) h)"
        by (rule qv_part [OF qo qnf])
      show ?thesis
      proof (cases "i \<le> ?m")
        case True
        have r3: "qv i i ?s3 (n * 2 + 2) (?m + 1) h = nullv" by (rule qv_out) (use True in simp)
        have r1: "qv i i ?s1 (n * 2 + 2) (?m + 1) h = nullv" by (rule qv_out) (use True in simp)
        have np1: "\<not> leaf_pending ?s1 (n * 2 + 1) l ?m i"
          using np by (simp only: lp_left [OF out ne nfull True] simp_thms)
        have "qv i i ?s2 (n * 2 + 1) l ?m = val ?s1 \<or>
              qv i i ?s2 (n * 2 + 1) l ?m = merge (val ?s1) (qv i i ?s1 (n * 2 + 1) l ?m)"
          by (rule "1.IH"(1) [OF out ne nfull _ _ _ _ _ np1])
            (use "1.prems" True in \<open>simp_all add: pd_fields\<close>)
        then show ?thesis
          by (simp only: u new old r1 r3 merge_nullv_right pd_fields)
      next
        case False
        have l2: "qv i i ?s2 (n * 2 + 1) l ?m = nullv" by (rule qv_out) (use False in simp)
        have l1: "qv i i ?s1 (n * 2 + 1) l ?m = nullv" by (rule qv_out) (use False in simp)
        have c: "qv i i ?s2 (n * 2 + 2) (?m + 1) h = qv i i ?s1 (n * 2 + 2) (?m + 1) h"
          by (simp only: ch)
        have np2: "\<not> leaf_pending ?s2 (n * 2 + 2) (?m + 1) h i"
          using np by (simp only: lp_right [OF out ne nfull False] simp_thms)
        have "qv i i ?s3 (n * 2 + 2) (?m + 1) h = val ?s2 \<or>
              qv i i ?s3 (n * 2 + 2) (?m + 1) h = merge (val ?s2) (qv i i ?s2 (n * 2 + 2) (?m + 1) h)"
          by (rule "1.IH"(2) [OF out ne nfull _ _ _ _ _ np2])
            (use "1.prems" False in \<open>simp_all add: pd_fields upd_fields\<close>)
        then show ?thesis
          by (simp only: u new old l1 l2 c merge_nullv_left pd_fields upd_fields)
      qed
    qed
  qed
qed

section \<open>The claims\<close>

text \<open>
  Claim C1 (fails on the code). For \<open>N = 2\<close> and \<open>A = {1, 5}\<close> the merge-fold of \<open>A\<close>
  is \<open>5\<close>. Right after construction \<open>query(0, 1)\<close> returns \<open>merge(g, 1)\<close>, where \<open>g\<close>
  is what \<open>tree[0]\<close> held before the constructor ran: the last line of \<open>build\<close> merges
  \<open>tree[node*2]\<close> and \<open>tree[node*2 + 1]\<close>, which at the root are the root itself and
  its left child.
\<close>

theorem full_range_query_after_build:
  "do {
     s0 \<leftarrow> new_segment_tree gt gl 2 (Some [1, 5]);
     r \<leftarrow> query s0 0 1;
     Some (fst r)
   } = Some (merge (gt 0) 1) \<and> merge 1 5 = 5"
  by (simp add: new_segment_tree_def int_max_def build.simps query_def internal_query.simps
      rd_def wr_def rd_init_def fill_lazy_def upto.simps signed_divide_int_def merge_def
      word_sless_alt)

text \<open>
  Claim C2 (fails on the code). After construction from \<open>A = {1, 5}\<close> the root holds
  \<open>merge(g, 1)\<close>, with \<open>g\<close> the previous content of \<open>tree[0]\<close>, while the merge of its
  two children's values is \<open>5\<close>.
\<close>

theorem build_internal_node:
  "do {
     s0 \<leftarrow> new_segment_tree gt gl 2 (Some [1, 5]);
     Some (tree s0 0, merge (tree s0 (2 * 0 + 1)) (tree s0 (2 * 0 + 2)))
   } = Some (merge (gt 0) 1, 5)"
  by (simp add: new_segment_tree_def int_max_def build.simps rd_def wr_def
      rd_init_def signed_divide_int_def merge_def word_sless_alt)

text \<open>
  Claim C3. For every \<open>N > 0\<close> whose buffer size \<open>4 * N\<close> fits an \<open>int\<close> and every
  initial array of length \<open>N\<close>, whatever the buffers held before, the constructor
  returns a structure on which \<open>at(i)\<close> returns \<open>A[i]\<close> for every index
  \<open>0 \<le> i < N\<close>. For a larger \<open>N\<close> the constructor's \<open>4*len\<close> overflows and no
  structure is constructed (lemma \<open>new_overflow\<close>).
\<close>

theorem build_correct:
  assumes "0 < N" "4 * N \<le> int_max" "int (length a) = N" "0 \<le> i" "i < N"
  shows "\<exists>s s'. new_segment_tree gt gl N (Some a) = Some s \<and> at s i = Some (a ! nat i, s')"
proof -
  from new_build [OF assms(1,2,3), of gt gl] obtain s
    where s: "new_segment_tree gt gl N (Some a) = Some s" and l: "len s = N"
      and v: "\<forall>i. 0 \<le> i \<and> i < N \<longrightarrow> qv i i s 0 0 (N - 1) = a ! nat i" by blast
  from query_qv [of s i i] assms(1) l obtain s'
    where "query s i i = Some (qv i i s 0 0 (N - 1), s')" by auto
  with v assms(4,5) have "at s i = Some (a ! nat i, s')" by (simp add: at_def)
  with s show ?thesis by blast
qed

theorem build_correct_witness:
  "\<exists>s s'. new_segment_tree (\<lambda>_. 0) (\<lambda>_. 0) 5 (Some [6, 4, 1, 8, 10]) = Some s \<and> at s 3 = Some (8, s')"
  using build_correct [of 5 "[6, 4, 1, 8, 10]" 3 "\<lambda>_. 0" "\<lambda>_. 0"] by (simp add: int_max_def)

text \<open>
  Claim C4, as stated, fails: from \<open>A = {10}\<close>, \<open>at(0)\<close> returns \<open>10\<close>, and after
  \<open>update(0, 0, 5)\<close> it returns \<open>5\<close>, not \<open>max(5, 10)\<close>.
\<close>

theorem chmax_counterexample:
  "do {
     s0 \<leftarrow> new_segment_tree (\<lambda>_. 0) (\<lambda>_. 0) 1 (Some [10]);
     r0 \<leftarrow> at s0 0;
     s1 \<leftarrow> update (snd r0) 0 0 5;
     r1 \<leftarrow> at s1 0;
     Some (fst r0, fst r1)
   } = Some (10, 5) \<and> merge 5 10 = 10"
  by code_simp

text \<open>
  Claim C4, amended. In every reachable state, for every \<open>0 \<le> lo \<le> hi < N\<close>, every
  value \<open>v\<close> and every index \<open>idx\<close> in \<open>[lo, hi]\<close>: \<open>at(idx)\<close>, then \<open>update(lo, hi, v)\<close>,
  then \<open>at(idx)\<close> all return, and with \<open>r\<close> the value of the first \<open>at(idx)\<close>, the second
  one returns \<open>v\<close> or \<open>max(v, r)\<close>; where it returns \<open>v\<close> the value may have decreased.
  The value is stated for every update that does not reach \<open>idx\<close> in the leaf branch of
  \<open>internal_update\<close> while \<open>lazy\<close> of that leaf holds a pending value
  (\<open>leaf_pending\<close>). Nothing is said about the value in that case, in which the code
  loses the update (claim C7).
\<close>

theorem update_value:
  assumes "reachable s" "0 \<le> lo" "lo \<le> hi" "hi < len s" "lo \<le> idx" "idx \<le> hi"
  shows "\<exists>r t s' r' t'. at s idx = Some (r, t) \<and> update t lo hi v = Some s' \<and>
           at s' idx = Some (r', t') \<and>
           (\<not> leaf_pending (t\<lparr>x := lo, y := hi, val := v\<rparr>) 0 0 (len t - 1) idx \<longrightarrow>
              r' = v \<or> r' = merge v r)"
proof -
  have p: "0 < len s" by (rule reachable_len [OF assms(1)])
  let ?N = "len s"
  from query_qv [OF p, of idx idx] obtain t
    where q: "query s idx idx = Some (qv idx idx s 0 0 (?N - 1), t)"
      and fr: "frame 0 (s\<lparr>x := idx, y := idx\<rparr>) t"
      and id: "qv idx idx t 0 0 (?N - 1) = qv idx idx s 0 0 (?N - 1)" by blast
  have lt: "len t = ?N" using frame_fields [OF fr] by simp
  let ?u = "t\<lparr>x := lo, y := hi, val := v\<rparr>"
  let ?s' = "upd ?u 0 0 (?N - 1)"
  have u: "update t lo hi v = Some ?s'" using update_upd [of t lo hi v] p lt by simp
  have l': "len ?s' = ?N" by (simp add: upd_fields lt)
  from query_qv [of ?s' idx idx] p l' obtain t'
    where q': "query ?s' idx idx = Some (qv idx idx ?s' 0 0 (?N - 1), t')" by auto
  have "qv idx idx ?s' 0 0 (?N - 1) = v \<or>
        qv idx idx ?s' 0 0 (?N - 1) = merge v (qv idx idx s 0 0 (?N - 1))"
    if np: "\<not> leaf_pending ?u 0 0 (len t - 1) idx"
  proof -
    from np have np': "\<not> leaf_pending ?u 0 0 (?N - 1) idx" by (simp add: lt)
    have "qv idx idx ?s' 0 0 (?N - 1) = val ?u \<or>
          qv idx idx ?s' 0 0 (?N - 1) = merge (val ?u) (qv idx idx ?u 0 0 (?N - 1))"
      by (rule upd_value [OF _ _ _ _ _ np']) (use assms in simp_all)
    then show ?thesis by (simp add: qv_vals id)
  qed
  with q u q' show ?thesis unfolding at_def by blast
qed

theorem update_value_witness:
  "\<exists>s r t s' r' t'.
     do {
       s0 \<leftarrow> new_segment_tree (\<lambda>_. 0) (\<lambda>_. 0) 5 (Some [6, 4, 1, 8, 10]);
       update s0 0 4 9
     } = Some s \<and>
     at s 3 = Some (r, t) \<and> r = 9 \<and>
     \<not> leaf_pending (t\<lparr>x := 2, y := 4, val := 12\<rparr>) 0 0 (len t - 1) 3 \<and>
     update t 2 4 12 = Some s' \<and> at s' 3 = Some (r', t') \<and> (r' = 12 \<or> r' = merge 12 r)"
proof -
  let ?new = "new_segment_tree (\<lambda>_. 0) (\<lambda>_. 0) 5 (Some [6, 4, 1, 8, 10])"
  let ?run = "do { s0 \<leftarrow> ?new; s \<leftarrow> update s0 0 4 9; rt \<leftarrow> at s 3; Some (s0, s, rt) }"
  have e: "map_option (\<lambda>(s0, s, rt). (len s, fst rt,
              leaf_pending ((snd rt)\<lparr>x := 2, y := 4, val := 12\<rparr>) 0 0 (len (snd rt) - 1) 3)) ?run =
           Some (5, 9, False)"
    by code_simp
  then obtain s0 s r t where s0: "?new = Some s0" and s: "update s0 0 4 9 = Some s"
    and a: "at s 3 = Some (r, t)" and f: "len s = 5" "r = 9"
    and np: "\<not> leaf_pending (t\<lparr>x := 2, y := 4, val := 12\<rparr>) 0 0 (len t - 1) 3"
    by (auto simp add: bind_eq_Some_conv)
  have "reachable s0" by (rule r_build [OF _ _ s0]) simp_all
  then have rs: "reachable s" by (rule r_update [OF _ s])
  from update_value [OF rs, of 2 4 3 12] f a np
  obtain s' r' t' where "update t 2 4 12 = Some s'" "at s' 3 = Some (r', t')" "r' = 12 \<or> r' = merge 12 r"
    by auto
  with s0 s a f np show ?thesis by (auto simp add: bind_eq_Some_conv)
qed

text \<open>
  Claim C5, as stated, fails: from \<open>A = {1, 2, 3, 4}\<close>, after \<open>update(0, 1, 10)\<close> and
  \<open>update(0, 3, 5)\<close> the root has the pending value \<open>5\<close> and its left child the pending
  value \<open>10\<close>. The push-down at the root leaves the child with \<open>5\<close>, not with
  \<open>merge(10, 5) = 10\<close>, and \<open>at(0)\<close> then returns \<open>5\<close>.
\<close>

theorem push_down_counterexample:
  "do {
     s0 \<leftarrow> new_segment_tree (\<lambda>_. 0) (\<lambda>_. 0) 4 (Some [1, 2, 3, 4]);
     s1 \<leftarrow> update s0 0 1 10;
     s2 \<leftarrow> update s1 0 3 5;
     s3 \<leftarrow> push_down s2 0;
     r \<leftarrow> at s2 0;
     Some (lazy s2 0, lazy s2 (2 * 0 + 1), lazy s3 (2 * 0 + 1), merge (lazy s2 (2 * 0 + 1)) (lazy s2 0), fst r)
   } = Some (5, 10, 5, 10, 5)"
  by code_simp

text \<open>
  Claim C5, amended. Whenever a query or an update partially overlaps the range of a
  node with a pending value, it first runs the push-down block, which returns when the
  children lie inside the buffers: both children's pending values are overwritten
  with the node's (whatever they held), the node's own is cleared, and the recursion
  into the children runs on that state.
\<close>

theorem push_down_overwrites:
  assumes "\<not> (hi < x s \<or> y s < lo)" "\<not> (x s \<le> lo \<and> hi \<le> y s)"
    "0 \<le> n" "n * 2 + 2 < 4 * len s" "lazy s n \<noteq> nullv"
  shows "\<exists>s1. push_down s n = Some s1 \<and>
           lazy s1 (n * 2 + 1) = lazy s n \<and> lazy s1 (n * 2 + 2) = lazy s n \<and> lazy s1 n = nullv \<and>
           internal_query s n lo hi =
             do {
               r1 \<leftarrow> internal_query s1 (n * 2 + 1) lo ((lo + hi) sdiv 2);
               r2 \<leftarrow> internal_query (snd r1) (n * 2 + 2) ((lo + hi) sdiv 2 + 1) hi;
               Some (merge (fst r1) (fst r2), snd r2)
             } \<and>
           internal_update s n lo hi =
             do {
               s2 \<leftarrow> internal_update s1 (n * 2 + 1) lo ((lo + hi) sdiv 2);
               s3 \<leftarrow> internal_update s2 (n * 2 + 2) ((lo + hi) sdiv 2 + 1) hi;
               a \<leftarrow> rd (4 * len s3) (tree s3) (n * 2 + 1);
               b \<leftarrow> rd (4 * len s3) (tree s3) (n * 2 + 2);
               t \<leftarrow> wr (4 * len s3) (tree s3) n (merge a b);
               Some (s3\<lparr>tree := t\<rparr>)
             }"
proof -
  have ne: "lo \<noteq> hi" using part_inner [OF assms(1,2)] by simp
  have "push_down s n = Some (pd s n)" by (rule push_down_pd [OF assms(3,4)])
  moreover have "lazy (pd s n) (n * 2 + 1) = lazy s n \<and> lazy (pd s n) (n * 2 + 2) = lazy s n"
    by (rule pd_lazy_children [OF assms(3,5)])
  moreover have "lazy (pd s n) n = nullv" by (rule pd_lazy_self)
  moreover note iq_part [OF assms(1-4)] iu_part [OF assms(1) ne assms(2-4)]
  ultimately show ?thesis by blast
qed

theorem push_down_overwrites_witness:
  "\<exists>s s1. do {
       s0 \<leftarrow> new_segment_tree (\<lambda>_. 0) (\<lambda>_. 0) 4 (Some [1, 2, 3, 4]);
       s1 \<leftarrow> update s0 0 1 10;
       s2 \<leftarrow> update s1 0 3 5;
       Some (s2\<lparr>x := 0, y := 0\<rparr>)
     } = Some s \<and>
     push_down s 0 = Some s1 \<and> lazy s 1 = 10 \<and> lazy s 0 = 5 \<and> lazy s1 1 = 5 \<and> lazy s1 2 = 5 \<and>
     lazy s1 0 = nullv"
proof -
  let ?run = "do {
       s0 \<leftarrow> new_segment_tree (\<lambda>_. 0) (\<lambda>_. 0) 4 (Some [1, 2, 3, 4]);
       s1 \<leftarrow> update s0 0 1 10;
       s2 \<leftarrow> update s1 0 3 5;
       Some (s2\<lparr>x := 0, y := 0\<rparr>)
     }"
  have e: "map_option (\<lambda>s. (len s, x s, y s, lazy s 0, lazy s 1)) ?run = Some (4, 0, 0, 5, 10)"
    by code_simp
  then obtain s where s: "?run = Some s" and f: "len s = 4" "x s = 0" "y s = 0" "lazy s 0 = 5" "lazy s 1 = 10"
    by (cases ?run) auto
  have nz: "lazy s 0 \<noteq> nullv" by (simp add: f nullv_def)
  from push_down_overwrites [of 3 s 0 0, OF _ _ _ _ nz] f
  obtain s1 where "push_down s 0 = Some s1" "lazy s1 1 = 5" "lazy s1 2 = 5" "lazy s1 0 = nullv"
    by auto
  with s f show ?thesis by blast
qed

text \<open>
  Claim C6. In every reachable state, for every in-bounds range \<open>[lo, hi]\<close>, every value
  \<open>v\<close> and every in-bounds range \<open>[a, b]\<close> disjoint from \<open>[lo, hi]\<close>, \<open>update(lo, hi, v)\<close>
  returns, and \<open>query(a, b)\<close> returns the same value after the update as it would have
  returned immediately before it.
\<close>

theorem locality:
  assumes "reachable s" "0 \<le> lo" "lo \<le> hi" "hi < len s" "0 \<le> a" "a \<le> b" "b < len s"
    "hi < a \<or> b < lo"
  shows "\<exists>s' r t t'. update s lo hi v = Some s' \<and> query s a b = Some (r, t) \<and>
           query s' a b = Some (r, t')"
proof -
  have p: "0 < len s" by (rule reachable_len [OF assms(1)])
  let ?u = "s\<lparr>x := lo, y := hi, val := v\<rparr>"
  let ?s' = "upd ?u 0 0 (len s - 1)"
  have u: "update s lo hi v = Some ?s'" by (rule update_upd [OF p])
  have l': "len ?s' = len s" by (simp add: upd_fields)
  from query_qv [OF p, of a b] obtain t
    where q: "query s a b = Some (qv a b s 0 0 (len s - 1), t)" by blast
  from query_qv [of ?s' a b] p l' obtain t'
    where q': "query ?s' a b = Some (qv a b ?s' 0 0 (len s - 1), t')" by auto
  have "qv a b ?s' 0 0 (len s - 1) = qv a b ?u 0 0 (len s - 1)"
    by (rule upd_local) (use assms(8) in simp_all)
  also have "\<dots> = qv a b s 0 0 (len s - 1)" by (rule qv_vals)
  finally show ?thesis using u q q' by simp
qed

theorem locality_witness:
  "\<exists>s s' r t t'. new_segment_tree (\<lambda>_. 0) (\<lambda>_. 0) 5 (Some [6, 4, 1, 8, 10]) = Some s \<and>
     update s 2 4 12 = Some s' \<and> query s 0 1 = Some (r, t) \<and> query s' 0 1 = Some (r, t')"
proof -
  from new_build [of 5 "[6, 4, 1, 8, 10]" "\<lambda>_. 0" "\<lambda>_. 0"] obtain s
    where s: "new_segment_tree (\<lambda>_. 0) (\<lambda>_. 0) 5 (Some [6, 4, 1, 8, 10]) = Some s" and l: "len s = 5"
    by (auto simp add: int_max_def)
  have r: "reachable s" by (rule r_build [OF _ _ s]) simp_all
  from locality [OF r, of 2 4 0 1 12] l s show ?thesis by auto
qed

text \<open>
  Claim C7 (fails on the code). From \<open>A = {1, 2}\<close>, after \<open>update(0, 1, 5)\<close> and then
  \<open>update(0, 0, 7)\<close>, \<open>query(0, 0)\<close> returns \<open>5\<close>, which is less than \<open>7\<close>: the second
  update pushes the pending \<open>5\<close> down to the leaf and writes \<open>7\<close> into \<open>tree\<close> of the
  leaf only, and the query prefers the pending value of the leaf.
\<close>

theorem update_lost:
  "do {
     s0 \<leftarrow> new_segment_tree (\<lambda>_. 0) (\<lambda>_. 0) 2 (Some [1, 2]);
     s1 \<leftarrow> update s0 0 1 5;
     s2 \<leftarrow> update s1 0 0 7;
     r \<leftarrow> query s2 0 0;
     Some (fst r)
   } = Some 5 \<and> (5 :: T) <s 7"
  by code_simp

text \<open>
  Claim C8. In every reachable state and for every in-bounds range \<open>[lo, hi]\<close>,
  \<open>query(lo, hi)\<close> called twice in a row returns the same value both times; the second
  call runs on the state that the first one left behind, write-back and push-down
  included.
\<close>

theorem idempotent_read:
  assumes "reachable s" "0 \<le> lo" "lo \<le> hi" "hi < len s"
  shows "\<exists>r s1 s2. query s lo hi = Some (r, s1) \<and> query s1 lo hi = Some (r, s2)"
proof -
  have p: "0 < len s" by (rule reachable_len [OF assms(1)])
  from query_qv [OF p, of lo hi] obtain s1
    where q1: "query s lo hi = Some (qv lo hi s 0 0 (len s - 1), s1)"
      and fr: "frame 0 (s\<lparr>x := lo, y := hi\<rparr>) s1"
      and id: "qv lo hi s1 0 0 (len s - 1) = qv lo hi s 0 0 (len s - 1)" by blast
  have l1: "len s1 = len s" using frame_fields [OF fr] by simp
  from query_qv [of s1 lo hi] p l1 obtain s2
    where "query s1 lo hi = Some (qv lo hi s1 0 0 (len s - 1), s2)" by auto
  with q1 id show ?thesis by simp
qed

theorem idempotent_read_witness:
  "\<exists>s r s1 s2. new_segment_tree (\<lambda>_. 0) (\<lambda>_. 0) 5 (Some [6, 4, 1, 8, 10]) = Some s \<and>
     query s 1 3 = Some (r, s1) \<and> query s1 1 3 = Some (r, s2)"
proof -
  from new_build [of 5 "[6, 4, 1, 8, 10]" "\<lambda>_. 0" "\<lambda>_. 0"] obtain s
    where s: "new_segment_tree (\<lambda>_. 0) (\<lambda>_. 0) 5 (Some [6, 4, 1, 8, 10]) = Some s" and l: "len s = 5"
    by (auto simp add: int_max_def)
  have r: "reachable s" by (rule r_build [OF _ _ s]) simp_all
  from idempotent_read [OF r, of 1 3] l s show ?thesis by auto
qed

text \<open>
  Claim C9. Every read and write of \<open>tree\<close> and \<open>lazy\<close> in the embedding is checked
  against \<open>[0, 4 * N)\<close>, and an operation returns a result only if none of its accesses
  failed the check. The allocation has \<open>4 * N\<close> elements when that product fits an
  \<open>int\<close>; for a larger \<open>N\<close> the constructor's \<open>4*len\<close> overflows and no structure is
  constructed (lemma \<open>new_overflow\<close>). For every \<open>N > 0\<close> with \<open>4 * N \<le> int_max\<close> the
  construction from an array of \<open>N\<close> values returns, and in every reachable state of
  that size \<open>at\<close>, \<open>query\<close> and both forms of \<open>update\<close> return for in-bounds
  arguments: the recursion never indexes outside of the allocation.
\<close>

theorem buffer_bounds:
  assumes "0 < N" "4 * N \<le> int_max" "int (length a) = N"
  shows "(\<exists>s. new_segment_tree gt gl N (Some a) = Some s) \<and>
         (\<forall>s. reachable s \<and> len s = N \<longrightarrow>
            (\<forall>lo hi v. 0 \<le> lo \<and> lo \<le> hi \<and> hi < N \<longrightarrow>
               (\<exists>r s'. at s lo = Some (r, s')) \<and> (\<exists>r s'. query s lo hi = Some (r, s')) \<and>
               (\<exists>s'. update_point s lo v = Some s') \<and> (\<exists>s'. update s lo hi v = Some s')))"
proof (intro conjI allI impI)
  show "\<exists>s. new_segment_tree gt gl N (Some a) = Some s"
    using new_build [OF assms, of gt gl] by blast
next
  fix s :: segment_tree and lo hi :: int and v :: T
  assume "reachable s \<and> len s = N"
  then have p: "0 < len s" using assms(1) by simp
  show "\<exists>r s'. at s lo = Some (r, s')"
    using query_qv [OF p, of lo lo] unfolding at_def by blast
  show "\<exists>r s'. query s lo hi = Some (r, s')"
    using query_qv [OF p, of lo hi] by blast
  show "\<exists>s'. update_point s lo v = Some s'"
    by (simp add: update_point_update update_upd [OF p])
  show "\<exists>s'. update s lo hi v = Some s'"
    by (simp add: update_upd [OF p])
qed

theorem buffer_bounds_witness:
  "\<exists>s. new_segment_tree (\<lambda>_. 0) (\<lambda>_. 0) 5 (Some [6, 4, 1, 8, 10]) = Some s \<and>
     (\<exists>r s'. at s 2 = Some (r, s')) \<and> (\<exists>r s'. query s 2 4 = Some (r, s')) \<and>
     (\<exists>s'. update_point s 2 12 = Some s') \<and> (\<exists>s'. update s 2 4 12 = Some s')"
proof -
  from new_build [of 5 "[6, 4, 1, 8, 10]" "\<lambda>_. 0" "\<lambda>_. 0"] obtain s
    where s: "new_segment_tree (\<lambda>_. 0) (\<lambda>_. 0) 5 (Some [6, 4, 1, 8, 10]) = Some s" and l: "len s = 5"
    by (auto simp add: int_max_def)
  have r: "reachable s" by (rule r_build [OF _ _ s]) simp_all
  have h: "(0::int) < 5" "4 * 5 \<le> int_max" "int (length [6, 4, 1, 8, 10 :: T]) = 5"
    by (simp_all add: int_max_def)
  have "(\<exists>r s'. at s 2 = Some (r, s')) \<and> (\<exists>r s'. query s 2 4 = Some (r, s')) \<and>
     (\<exists>s'. update_point s 2 12 = Some s') \<and> (\<exists>s'. update s 2 4 12 = Some s')"
    by (rule buffer_bounds [OF h, of "\<lambda>_. 0" "\<lambda>_. 0", THEN conjunct2, rule_format, of s 2 4 12])
      (simp_all add: r l)
  with s show ?thesis by blast
qed

text \<open>
  Claim C10. In every reachable state and for every pair of in-bounds indices with
  \<open>lo > hi\<close>, \<open>query(lo, hi)\<close> returns \<open>nullv()\<close>.
\<close>

theorem inverted_range:
  assumes "reachable s" "0 \<le> hi" "hi < lo" "lo < len s"
  shows "\<exists>s'. query s lo hi = Some (nullv, s')"
proof -
  have p: "0 < len s" by (rule reachable_len [OF assms(1)])
  from query_qv [OF p, of lo hi] show ?thesis
    by (auto simp add: qv_inverted [OF assms(3)])
qed

theorem inverted_range_witness:
  "\<exists>s s'. new_segment_tree (\<lambda>_. 0) (\<lambda>_. 0) 5 (Some [6, 4, 1, 8, 10]) = Some s \<and>
     query s 3 1 = Some (nullv, s')"
proof -
  from new_build [of 5 "[6, 4, 1, 8, 10]" "\<lambda>_. 0" "\<lambda>_. 0"] obtain s
    where s: "new_segment_tree (\<lambda>_. 0) (\<lambda>_. 0) 5 (Some [6, 4, 1, 8, 10]) = Some s" and l: "len s = 5"
    by (auto simp add: int_max_def)
  have r: "reachable s" by (rule r_build [OF _ _ s]) simp_all
  from inverted_range [OF r, of 1 3] l s show ?thesis by auto
qed

end
